theory Spec2Isabelle
  imports
    Complex_Main
    "HOL-Library.Char_ord"
    "HOL-Library.List_Lexorder"
    "HOL-Library.Product_Lexorder"
begin

section \<open>Strings\<close>

text \<open>
  A Python \<open>str\<close> is modelled as a \<open>string\<close> whose characters are code points below
  256 (one \<open>char\<close> per code point). Code points from 256 on are outside the model: Python's
  \<open>str.lower\<close> and the \<open>re.IGNORECASE\<close> flag have special cases there that the
  definitions below do not cover.

  \<open>isspace\<close> is what \<open>str.strip()\<close> removes and what \<open>\s\<close> matches in a \<open>str\<close> pattern
  (both test \<open>Py_UNICODE_ISSPACE\<close>): tab, line feed, vertical tab, form feed, carriage return,
  the four separators 0x1c..0x1f, space, NEL (0x85) and the no-break space (0xa0).
\<close>

definition isspace :: "char \<Rightarrow> bool" where
  "isspace c = (of_char c \<in> {9, 10, 11, 12, 13, 28, 29, 30, 31, 32, 133, 160 :: nat})"

text \<open>\<open>str.lower()\<close> on one code point below 256: A..Z and 0xc0..0xde without 0xd7.\<close>

definition lower_char :: "char \<Rightarrow> char" where
  "lower_char c =
     (let n = (of_char c :: nat)
      in if (65 \<le> n \<and> n \<le> 90) \<or> (192 \<le> n \<and> n \<le> 222 \<and> n \<noteq> 215)
         then char_of (n + 32) else c)"

definition lower :: "string \<Rightarrow> string" where
  "lower s = map lower_char s"

text \<open>\<open>s.strip()\<close>: leading and trailing whitespace removed.\<close>

definition lstrip :: "string \<Rightarrow> string" where
  "lstrip s = dropWhile isspace s"

definition rstrip :: "string \<Rightarrow> string" where
  "rstrip s = rev (dropWhile isspace (rev s))"

definition strip :: "string \<Rightarrow> string" where
  "strip s = rstrip (lstrip s)"

text \<open>\<open>needle in hay\<close> on strings.\<close>

fun contains :: "string \<Rightarrow> string \<Rightarrow> bool" where
  "contains needle [] = (needle = [])"
| "contains needle (c # cs) =
     (take (length needle) (c # cs) = needle \<or> contains needle cs)"

section \<open>Subject normalisation\<close>

subsection \<open>The three compiled patterns\<close>

text \<open>
  \<open>_BRACKET_TAG_RE = ^\s*\[[^\]]+\]\s*\<close>. The pattern is anchored at the start of the
  string, so \<open>sub("", s)\<close> replaces at most one match, the one at position 0. A match is:
  all leading whitespace, \<open>[\<close>, one or more characters other than \<open>]\<close> (the class cannot
  run past the first \<open>]\<close>, so the body is everything up to it), \<open>]\<close>, and all whitespace
  that follows. \<open>bracket_tag_match s\<close> is the rest of \<open>s\<close> after the match.
\<close>

definition bracket_tag_match :: "string \<Rightarrow> string option" where
  "bracket_tag_match s =
     (case dropWhile isspace s of
        [] \<Rightarrow> None
      | c # rest \<Rightarrow>
          if c = CHR ''[''
          then (case dropWhile (\<lambda>x. x \<noteq> CHR '']'') rest of
                  [] \<Rightarrow> None
                | _ # after \<Rightarrow>
                    if takeWhile (\<lambda>x. x \<noteq> CHR '']'') rest = [] then None
                    else Some (dropWhile isspace after))
          else None)"

definition bracket_tag_sub :: "string \<Rightarrow> string" where
  "bracket_tag_sub s = (case bracket_tag_match s of None \<Rightarrow> s | Some r \<Rightarrow> r)"

text \<open>
  \<open>_PREFIX_RE = ^\s*((re|fw|fwd|aw|sv|rv|ref|res)\s*[:\]]\s*)+\<close> with \<open>re.IGNORECASE\<close>.
  One round of the group: the alternatives are tried in the order written, and an
  alternative is kept when \<open>\s*[:\]]\<close> matches after it; then all whitespace that follows
  is taken. Below code point 256 a letter of the pattern matches itself and its upper case.
\<close>

definition prefix_tokens :: "string list" where
  "prefix_tokens = [''re'', ''fw'', ''fwd'', ''aw'', ''sv'', ''rv'', ''ref'', ''res'']"

definition token_match :: "string \<Rightarrow> string \<Rightarrow> string option" where
  "token_match t s =
     (if length t \<le> length s \<and> lower (take (length t) s) = t
      then (case dropWhile isspace (drop (length t) s) of
              [] \<Rightarrow> None
            | c # after \<Rightarrow>
                if c = CHR '':'' \<or> c = CHR '']'' then Some (dropWhile isspace after) else None)
      else None)"

fun first_token_match :: "string list \<Rightarrow> string \<Rightarrow> string option" where
  "first_token_match [] s = None"
| "first_token_match (t # ts) s =
     (case token_match t s of Some r \<Rightarrow> Some r | None \<Rightarrow> first_token_match ts s)"

definition prefix_group :: "string \<Rightarrow> string option" where
  "prefix_group s = first_token_match prefix_tokens s"

text \<open>
  The rounds of the group \<open>(...)+\<close>: as many as match, each starting where the last one
  stopped. Every round consumes at least the token, so the recursion ends.
\<close>

lemma token_match_shorter:
  "token_match t s = Some r \<Longrightarrow> t \<noteq> [] \<Longrightarrow> length r < length s"
proof -
  assume m: "token_match t s = Some r" and t: "t \<noteq> []"
  from m obtain c after where
    d: "dropWhile isspace (drop (length t) s) = c # after" and
    r: "r = dropWhile isspace after" and le: "length t \<le> length s"
    by (auto simp: token_match_def split: if_splits list.splits)
  have "length r \<le> length after"
    by (simp add: r length_dropWhile_le)
  also have "\<dots> < length (dropWhile isspace (drop (length t) s))"
    by (simp add: d)
  also have "\<dots> \<le> length (drop (length t) s)"
    by (rule length_dropWhile_le)
  also have "\<dots> \<le> length s"
    by simp
  finally show ?thesis .
qed

lemma first_token_match_shorter:
  "first_token_match ts s = Some r \<Longrightarrow> [] \<notin> set ts \<Longrightarrow> length r < length s"
  by (induction ts) (auto split: option.splits dest: token_match_shorter)

lemma prefix_group_shorter: "prefix_group s = Some r \<Longrightarrow> length r < length s"
proof -
  assume "prefix_group s = Some r"
  then have "first_token_match prefix_tokens s = Some r"
    by (simp only: prefix_group_def)
  moreover have "[] \<notin> set prefix_tokens"
    by (simp add: prefix_tokens_def)
  ultimately show ?thesis
    by (rule first_token_match_shorter)
qed

function prefix_groups :: "string \<Rightarrow> string" where
  "prefix_groups s = (case prefix_group s of None \<Rightarrow> s | Some r \<Rightarrow> prefix_groups r)"
  by pat_completeness auto
termination
  by (relation "measure length") (auto dest: prefix_group_shorter)

declare prefix_groups.simps [simp del]

definition prefix_match :: "string \<Rightarrow> string option" where
  "prefix_match s =
     (case prefix_group (dropWhile isspace s) of
        None \<Rightarrow> None
      | Some r \<Rightarrow> Some (prefix_groups r))"

definition prefix_sub :: "string \<Rightarrow> string" where
  "prefix_sub s = (case prefix_match s of None \<Rightarrow> s | Some r \<Rightarrow> r)"

text \<open>
  \<open>_TRAILING_PARENS_RE = \s*[\(\[\{][^\)\]\}]*[\)\]\}]\s*$\<close>, not anchored at the start.
  \<open>trailing_match_here s\<close>: the pattern matches at the first position of \<open>s\<close>, that is,
  \<open>s\<close> is whitespace, an opening character, characters that are no closing character,
  a closing character, and whitespace up to the end. \<open>sub("", s)\<close> scans the positions from
  the left, copies a character where the pattern does not match and drops the match where
  it does; the match reaches the end of the string, so nothing is left to scan after it.
\<close>

definition is_open :: "char \<Rightarrow> bool" where
  "is_open c = (c = CHR ''('' \<or> c = CHR ''['' \<or> c = CHR ''{'')"

definition is_close :: "char \<Rightarrow> bool" where
  "is_close c = (c = CHR '')'' \<or> c = CHR '']'' \<or> c = CHR ''}'')"

definition trailing_match_here :: "string \<Rightarrow> bool" where
  "trailing_match_here s =
     (case dropWhile isspace s of
        [] \<Rightarrow> False
      | c # rest \<Rightarrow>
          is_open c \<and>
          (case dropWhile (\<lambda>x. \<not> is_close x) rest of
             [] \<Rightarrow> False
           | _ # after \<Rightarrow> dropWhile isspace after = []))"

fun trailing_parens_sub :: "string \<Rightarrow> string" where
  "trailing_parens_sub [] = []"
| "trailing_parens_sub (c # cs) =
     (if trailing_match_here (c # cs) then [] else c # trailing_parens_sub cs)"

subsection \<open>The two inline patterns\<close>

text \<open>
  \<open>re.sub(r"\s+", " ", s)\<close>: every maximal run of whitespace becomes one space.
\<close>

function collapse_ws :: "string \<Rightarrow> string" where
  "collapse_ws [] = []"
| "collapse_ws (c # cs) =
     (if isspace c then CHR '' '' # collapse_ws (dropWhile isspace cs)
      else c # collapse_ws cs)"
  by pat_completeness auto
termination
  by (relation "measure length") (auto simp: less_Suc_eq_le length_dropWhile_le)

text \<open>
  \<open>re.sub(r"[-:|]+$", "", s)\<close>. \<open>$\<close> matches at the end of the string and also just
  before a line feed that ends the string. At a position, \<open>[-:|]+\<close> takes the whole run of
  the three characters, and the pattern matches when what follows the run is nothing or
  that single line feed, which is kept.
\<close>

definition is_dash :: "char \<Rightarrow> bool" where
  "is_dash c = (c = CHR ''-'' \<or> c = CHR '':'' \<or> c = CHR ''|'')"

definition dash_match_here :: "string \<Rightarrow> bool" where
  "dash_match_here s =
     (takeWhile is_dash s \<noteq> [] \<and>
      (dropWhile is_dash s = [] \<or> dropWhile is_dash s = [CHR 0x0A]))"

fun trailing_dash_sub :: "string \<Rightarrow> string" where
  "trailing_dash_sub [] = []"
| "trailing_dash_sub (c # cs) =
     (if dash_match_here (c # cs) then dropWhile is_dash (c # cs)
      else c # trailing_dash_sub cs)"

subsection \<open>\<open>normalize_subject\<close>\<close>

text \<open>
  The three \<open>while True\<close> loops have one shape:
  \<^verbatim>\<open>n = RE.sub("", s);  if n == s: break;  s = n.strip()\<close>.
  Each pattern matches at least one character, so a round that does not break makes the
  string shorter.
\<close>

lemma length_strip_le: "length (strip s) \<le> length s"
proof -
  have "length (strip s) = length (dropWhile isspace (rev (dropWhile isspace s)))"
    by (simp add: strip_def rstrip_def lstrip_def)
  also have "\<dots> \<le> length (rev (dropWhile isspace s))"
    by (rule length_dropWhile_le)
  also have "\<dots> \<le> length s"
    by (simp add: length_dropWhile_le)
  finally show ?thesis .
qed

lemma bracket_tag_match_shorter:
  "bracket_tag_match s = Some r \<Longrightarrow> length r < length s"
proof -
  assume m: "bracket_tag_match s = Some r"
  from m obtain c rest x after where
    d: "dropWhile isspace s = c # rest" and
    e: "dropWhile (\<lambda>x. x \<noteq> CHR '']'') rest = x # after" and
    r: "r = dropWhile isspace after"
    by (auto simp: bracket_tag_match_def split: if_splits list.splits)
  have "length r \<le> length after"
    by (simp add: r length_dropWhile_le)
  also have "\<dots> < length (dropWhile (\<lambda>x. x \<noteq> CHR '']'') rest)"
    by (simp add: e)
  also have "\<dots> \<le> length rest"
    by (rule length_dropWhile_le)
  also have "\<dots> < length (dropWhile isspace s)"
    by (simp add: d)
  also have "\<dots> \<le> length s"
    by (rule length_dropWhile_le)
  finally show ?thesis .
qed

lemma bracket_tag_sub_shorter:
  "bracket_tag_sub s \<noteq> s \<Longrightarrow> length (bracket_tag_sub s) < length s"
  by (auto simp: bracket_tag_sub_def split: option.splits dest: bracket_tag_match_shorter)

lemma length_prefix_groups_le: "length (prefix_groups s) \<le> length s"
proof (induction s rule: prefix_groups.induct)
  case (1 s)
  show ?case
  proof (cases "prefix_group s")
    case None
    then show ?thesis by (simp add: prefix_groups.simps [of s])
  next
    case (Some r)
    with 1 have "length (prefix_groups r) \<le> length r" by simp
    moreover from Some have "length r < length s" by (rule prefix_group_shorter)
    ultimately show ?thesis using Some by (simp add: prefix_groups.simps [of s])
  qed
qed

lemma prefix_sub_shorter:
  "prefix_sub s \<noteq> s \<Longrightarrow> length (prefix_sub s) < length s"
proof -
  assume ne: "prefix_sub s \<noteq> s"
  then obtain r where g: "prefix_group (dropWhile isspace s) = Some r"
    and p: "prefix_sub s = prefix_groups r"
    by (auto simp: prefix_sub_def prefix_match_def split: option.splits)
  have "length (prefix_groups r) \<le> length r"
    by (rule length_prefix_groups_le)
  also from g have "\<dots> < length (dropWhile isspace s)"
    by (rule prefix_group_shorter)
  also have "\<dots> \<le> length s"
    by (rule length_dropWhile_le)
  finally show ?thesis by (simp add: p)
qed

lemma length_trailing_parens_sub_le: "length (trailing_parens_sub s) \<le> length s"
  by (induction s) auto

lemma trailing_parens_sub_shorter:
  "trailing_parens_sub s \<noteq> s \<Longrightarrow> length (trailing_parens_sub s) < length s"
  by (induction s) (auto simp: less_Suc_eq_le length_trailing_parens_sub_le)

function strip_leading_tags :: "string \<Rightarrow> string" where
  "strip_leading_tags s =
     (let n = bracket_tag_sub s in if n = s then s else strip_leading_tags (strip n))"
  by pat_completeness auto
termination
proof (relation "measure length")
  fix s n :: string
  assume "n = bracket_tag_sub s" "n \<noteq> s"
  then have "length n < length s"
    using bracket_tag_sub_shorter [of s] by simp
  moreover have "length (strip n) \<le> length n"
    by (rule length_strip_le)
  ultimately show "(strip n, s) \<in> measure length"
    by simp
qed simp

declare strip_leading_tags.simps [simp del]

function strip_prefixes :: "string \<Rightarrow> string" where
  "strip_prefixes s =
     (let n = prefix_sub s in if n = s then s else strip_prefixes (strip n))"
  by pat_completeness auto
termination
proof (relation "measure length")
  fix s n :: string
  assume "n = prefix_sub s" "n \<noteq> s"
  then have "length n < length s"
    using prefix_sub_shorter [of s] by simp
  moreover have "length (strip n) \<le> length n"
    by (rule length_strip_le)
  ultimately show "(strip n, s) \<in> measure length"
    by simp
qed simp

declare strip_prefixes.simps [simp del]

function strip_trailing_parens :: "string \<Rightarrow> string" where
  "strip_trailing_parens s =
     (let n = trailing_parens_sub s in if n = s then s else strip_trailing_parens (strip n))"
  by pat_completeness auto
termination
proof (relation "measure length")
  fix s n :: string
  assume "n = trailing_parens_sub s" "n \<noteq> s"
  then have "length n < length s"
    using trailing_parens_sub_shorter [of s] by simp
  moreover have "length (strip n) \<le> length n"
    by (rule length_strip_le)
  ultimately show "(strip n, s) \<in> measure length"
    by simp
qed simp

declare strip_trailing_parens.simps [simp del]

text \<open>
  The argument is \<open>None\<close> for Python's \<open>None\<close> (a JSON \<open>null\<close> name); \<open>not s\<close> is true
  for it and for the empty string.
\<close>

definition normalize_subject :: "string option \<Rightarrow> string" where
  "normalize_subject so =
     (case so of
        None \<Rightarrow> []
      | Some s0 \<Rightarrow>
          if s0 = [] then []
          else
            let s = strip s0;
                s = strip_leading_tags s;
                s = strip_prefixes s;
                s = strip_trailing_parens s;
                s = strip (collapse_ws s);
                s = strip (trailing_dash_sub s)
            in lower s)"

section \<open>Exact grouping\<close>

text \<open>
  An item as \<open>fetch_all\<close> returns it: \<open>item_id\<close> is \<open>str(it["id"])\<close>, \<open>item_name\<close> is
  \<open>it.get("name", "")\<close> (\<open>None\<close> for a JSON \<open>null\<close>), \<open>created_at\<close> is
  \<open>it.get("created_at")\<close> and \<open>item_group\<close> is \<open>(it.get("group") or {}).get("id")\<close>.
\<close>

record raw_item =
  item_id :: string
  item_name :: "string option"
  created_at :: "string option"
  item_group :: "string option"

record shaped_item =
  sh_id :: string
  sh_name :: "string option"
  sh_subject_norm :: string
  sh_created_at_ts :: int
  sh_group_id :: "string option"

record group =
  subject_norm :: string
  item_ids_oldest_first :: "string list"
  count :: int

text \<open>
  The local function \<open>ts\<close> of \<open>group_items\<close> parses a timestamp with the \<open>datetime\<close>
  library and gives 0 where that fails; it is a parameter here.
\<close>

definition shape :: "(string option \<Rightarrow> int) \<Rightarrow> raw_item \<Rightarrow> shaped_item" where
  "shape ts it =
     \<lparr>sh_id = item_id it,
      sh_name = item_name it,
      sh_subject_norm = normalize_subject (item_name it),
      sh_created_at_ts = ts (created_at it),
      sh_group_id = item_group it\<rparr>"

text \<open>
  \<open>by_subj.setdefault(k, []).append(it)\<close> on a dict that keeps its keys in the order of
  their first insertion: an association list with distinct keys.
\<close>

fun setdefault_append :: "(string \<times> shaped_item list) list \<Rightarrow> string \<Rightarrow> shaped_item \<Rightarrow>
    (string \<times> shaped_item list) list" where
  "setdefault_append [] k it = [(k, [it])]"
| "setdefault_append ((k', arr) # kvs) k it =
     (if k' = k then (k', arr @ [it]) # kvs else (k', arr) # setdefault_append kvs k it)"

definition build_by_subj :: "shaped_item list \<Rightarrow> (string \<times> shaped_item list) list" where
  "build_by_subj shaped = foldl (\<lambda>d it. setdefault_append d (sh_subject_norm it) it) [] shaped"

definition make_group :: "string \<times> shaped_item list \<Rightarrow> group" where
  "make_group kv =
     (let arr = sort_key (\<lambda>x. (sh_created_at_ts x, sh_id x)) (snd kv)
      in \<lparr>subject_norm = fst kv,
          item_ids_oldest_first = map sh_id arr,
          count = int (length arr)\<rparr>)"

definition build_id_to_name :: "shaped_item list \<Rightarrow> (string \<rightharpoonup> string option)" where
  "build_id_to_name shaped = foldl (\<lambda>m x. m(sh_id x \<mapsto> sh_name x)) Map.empty shaped"

definition group_items :: "(string option \<Rightarrow> int) \<Rightarrow> raw_item list \<Rightarrow>
    group list \<times> (string \<rightharpoonup> string option)" where
  "group_items ts items =
     (let shaped = map (shape ts) items;
          by_subj = build_by_subj shaped;
          grouped = map make_group by_subj;
          grouped = sort_key (\<lambda>g. (- count g, subject_norm g)) grouped
      in (grouped, build_id_to_name shaped))"

section \<open>The remote API and the retry wrapper\<close>

text \<open>
  A request is a GraphQL document with its variables; the model keeps what identifies it:
  the query of \<open>get_existing_subitem_names\<close>, the batch mutation built by
  \<open>build_batch_mutation\<close> (one \<open>create_subitem\<close> per name), the single \<open>create_subitem\<close>
  of the fallback, and the batch mutations of \<open>move_items\<close> and \<open>archive_items\<close>.
\<close>

datatype request =
    SubitemsQuery string
  | CreateSubitemsBatch string "string list"
  | CreateSubitem string string
  | MoveItems "string list" string
  | ArchiveItems "string list"

text \<open>
  What \<open>gql\<close> makes of the server's answer: it raises \<open>Exception(msg)\<close> (\<open>Inl msg\<close>) on a
  transport error, a status that is not ok, a body that is no JSON or a body with
  \<open>errors\<close>, and returns the \<open>data\<close> member otherwise. Of the data the code reads only the
  names of the first item's subitems (\<open>None\<close> for a \<open>null\<close> name); \<open>Unusable\<close> is data
  on which \<open>.get("items")\<close> raises, such as \<open>None\<close>.
\<close>

datatype payload = ParentSubitems "string option list" | Unusable

type_synonym response = "string + payload"

text \<open>
  The server answers a request knowing the requests it was sent before. The world holds
  what a run leaves behind: the requests sent, the arguments of \<open>time.sleep\<close> and the
  \<open>create_subitem_failed\<close> lines printed (parent, name, error).
\<close>

type_synonym server = "request list \<Rightarrow> request \<Rightarrow> response"

record world =
  calls :: "request list"
  slept :: "rat list"
  printed :: "(string \<times> string \<times> string) list"

definition sleep :: "rat \<Rightarrow> world \<Rightarrow> world" where
  "sleep d w = w\<lparr>slept := slept w @ [d]\<rparr>"

definition gql :: "server \<Rightarrow> request \<Rightarrow> world \<Rightarrow> response \<times> world" where
  "gql srv q w = (srv (calls w) q, w\<lparr>calls := calls w @ [q]\<rparr>)"

definition transient :: "string \<Rightarrow> bool" where
  "transient msg =
     (contains ''TooManyConcurrentRequestsException'' msg
      \<or> contains ''Failed to lock item id for graphql mutation'' msg
      \<or> contains (''status_code'' @ [CHR 0x27] @ '': 429'') msg
      \<or> contains ''HTTP 429'' msg)"

text \<open>
  \<open>gql_with_retry\<close>: the \<open>for attempt in range(max_retries)\<close> loop, with the loop variable
  and \<open>delay\<close> as arguments. A loop that runs out without returning (only when
  \<open>max_retries\<close> is not positive) makes the function return \<open>None\<close>. The delays are
  rationals: 0.5, 2 and 5.0 are the source's values, and \<open>0.1 * attempt\<close> is taken as the
  exact tenth, without the rounding of binary floating point.
\<close>

function gql_with_retry_from ::
    "server \<Rightarrow> request \<Rightarrow> int \<Rightarrow> int \<Rightarrow> rat \<Rightarrow> world \<Rightarrow> (string + payload option) \<times> world" where
  "gql_with_retry_from srv q max_retries attempt delay w =
     (if attempt < max_retries
      then (case gql srv q w of
              (Inr d, w1) \<Rightarrow> (Inr (Some d), w1)
            | (Inl msg, w1) \<Rightarrow>
                if transient msg \<and> attempt < max_retries - 1
                then gql_with_retry_from srv q max_retries (attempt + 1) (min (delay * 2) 5)
                       (sleep (delay + (1 / 10) * of_int attempt) w1)
                else (Inl msg, w1))
      else (Inr None, w))"
  by pat_completeness auto
termination
  by (relation "measure (\<lambda>(srv, q, max_retries, attempt, delay, w). nat (max_retries - attempt))")
    auto

declare gql_with_retry_from.simps [simp del]

definition gql_with_retry ::
    "server \<Rightarrow> request \<Rightarrow> int \<Rightarrow> world \<Rightarrow> (string + payload option) \<times> world" where
  "gql_with_retry srv q max_retries w = gql_with_retry_from srv q max_retries 0 (1 / 2) w"

section \<open>Child records\<close>

definition get_existing_subitem_names ::
    "server \<Rightarrow> string \<Rightarrow> world \<Rightarrow> (string + string set) \<times> world" where
  "get_existing_subitem_names srv parent_id w =
     (case gql srv (SubitemsQuery parent_id) w of
        (Inl msg, w1) \<Rightarrow> (Inl msg, w1)
      | (Inr Unusable, w1) \<Rightarrow> (Inl ''AttributeError'', w1)
      | (Inr (ParentSubitems sis), w1) \<Rightarrow>
          (Inr (set (filter (\<lambda>n. n \<noteq> [])
                   (map (\<lambda>si. strip (case si of None \<Rightarrow> [] | Some n \<Rightarrow> n)) sis))), w1))"

text \<open>Decimal digits of a natural number, for the f-string \<open>f"Item {i+1}"\<close>.\<close>

function str_nat :: "nat \<Rightarrow> string" where
  "str_nat n =
     (if n < 10 then [char_of (48 + n)] else str_nat (n div 10) @ [char_of (48 + n mod 10)])"
  by pat_completeness auto
termination
  by (relation "measure id") auto

declare str_nat.simps [simp del]

definition sanitize_name :: "string option \<Rightarrow> string \<Rightarrow> string" where
  "sanitize_name name fallback =
     (let nm = strip (case name of None \<Rightarrow> [] | Some n \<Rightarrow> n);
          nm = (if nm = [] then fallback else nm);
          nm = (if length nm > 255 then take 255 nm else nm)
      in nm)"

text \<open>
  \<open>clean_names\<close>: the names sanitised with their positional fallback, the empty ones
  dropped. \<open>i\<close> is the index \<open>enumerate\<close> gives the first name of the list.
\<close>

fun clean_names_from :: "nat \<Rightarrow> string list \<Rightarrow> string list" where
  "clean_names_from i [] = []"
| "clean_names_from i (nm # names) =
     (let nm2 = sanitize_name (Some nm) (''Item '' @ str_nat (i + 1))
      in if nm2 \<noteq> [] then nm2 # clean_names_from (i + 1) names
         else clean_names_from (i + 1) names)"

text \<open>\<open>xs[off:off+n]\<close> for \<open>off\<close> in \<open>range(0, len(xs), n)\<close>.\<close>

function chunks :: "nat \<Rightarrow> 'a list \<Rightarrow> 'a list list" where
  "chunks n xs = (if xs = [] \<or> n = 0 then [] else take n xs # chunks n (drop n xs))"
  by pat_completeness auto
termination
  by (relation "measure (\<lambda>(n, xs). length xs)") auto

declare chunks.simps [simp del]

text \<open>The fallback of \<open>create_subitems\<close>: one request per name, a failure printed.\<close>

fun create_singles :: "server \<Rightarrow> string \<Rightarrow> string list \<Rightarrow> world \<Rightarrow> world" where
  "create_singles srv parent_id [] w = w"
| "create_singles srv parent_id (nm # chunk) w =
     (case gql_with_retry srv (CreateSubitem parent_id nm) 5 w of
        (Inr _, w1) \<Rightarrow> create_singles srv parent_id chunk (sleep (1 / 20) w1)
      | (Inl e2, w1) \<Rightarrow>
          create_singles srv parent_id chunk (w1\<lparr>printed := printed w1 @ [(parent_id, nm, e2)]\<rparr>))"

fun create_chunks :: "server \<Rightarrow> string \<Rightarrow> string list list \<Rightarrow> world \<Rightarrow> world" where
  "create_chunks srv parent_id [] w = w"
| "create_chunks srv parent_id (chunk # rest) w =
     (case gql_with_retry srv (CreateSubitemsBatch parent_id chunk) 5 w of
        (Inr _, w1) \<Rightarrow> create_chunks srv parent_id rest (sleep (1 / 10) w1)
      | (Inl e, w1) \<Rightarrow> create_chunks srv parent_id rest (create_singles srv parent_id chunk w1))"

definition create_subitems :: "server \<Rightarrow> string \<Rightarrow> string list \<Rightarrow> world \<Rightarrow> world" where
  "create_subitems srv parent_id names w =
     (let clean_names = clean_names_from 0 names
      in if clean_names = [] then w
         else create_chunks srv parent_id (chunks 20 clean_names) w)"

section \<open>The after-actions\<close>

text \<open>An exception of \<open>gql_with_retry\<close> is not caught here: \<open>Some msg\<close> is that exception.\<close>

fun move_chunks :: "server \<Rightarrow> string list list \<Rightarrow> string \<Rightarrow> world \<Rightarrow> string option \<times> world" where
  "move_chunks srv [] group_id w = (None, w)"
| "move_chunks srv (chunk # rest) group_id w =
     (case gql_with_retry srv (MoveItems chunk group_id) 5 w of
        (Inl e, w1) \<Rightarrow> (Some e, w1)
      | (Inr _, w1) \<Rightarrow> move_chunks srv rest group_id (sleep (1 / 10) w1))"

definition move_items :: "server \<Rightarrow> string list \<Rightarrow> string \<Rightarrow> world \<Rightarrow> string option \<times> world" where
  "move_items srv ids group_id w =
     (if ids = [] then (None, w) else move_chunks srv (chunks 5 ids) group_id w)"

fun archive_chunks :: "server \<Rightarrow> string list list \<Rightarrow> world \<Rightarrow> string option \<times> world" where
  "archive_chunks srv [] w = (None, w)"
| "archive_chunks srv (chunk # rest) w =
     (case gql_with_retry srv (ArchiveItems chunk) 5 w of
        (Inl e, w1) \<Rightarrow> (Some e, w1)
      | (Inr _, w1) \<Rightarrow> archive_chunks srv rest (sleep (1 / 10) w1))"

definition archive_items :: "server \<Rightarrow> string list \<Rightarrow> world \<Rightarrow> string option \<times> world" where
  "archive_items srv ids w =
     (if ids = [] then (None, w) else archive_chunks srv (chunks 10 ids) w)"

section \<open>Configuration\<close>

text \<open>
  The module-level settings \<open>main\<close> reads. \<open>_get(k, default)\<close> takes the value of the
  settings table unless it is missing or empty. \<open>GROUPING\<close> is lower-cased where it comes
  from the environment (default \<open>"hybrid"\<close>) and taken as it is from the table.
\<close>

record config =
  BOARD_ID :: string
  GROUPING :: string
  MIN_COUNT :: int
  MAX_GROUPS :: int
  MAX_CHILDREN :: int
  AFTER_ACTION :: string
  MOVE_GROUP_ID :: string

definition db_get :: "(string \<rightharpoonup> string) \<Rightarrow> string \<Rightarrow> string \<Rightarrow> string" where
  "db_get db_overrides k dflt =
     (case db_overrides k of
        None \<Rightarrow> dflt
      | Some v \<Rightarrow> if v \<noteq> [] then v else dflt)"

definition resolve_GROUPING :: "(string \<rightharpoonup> string) \<Rightarrow> (string \<rightharpoonup> string) \<Rightarrow> string" where
  "resolve_GROUPING environ db_overrides =
     db_get db_overrides ''GROUPING''
       (lower (case environ ''GROUPING'' of None \<Rightarrow> ''hybrid'' | Some v \<Rightarrow> v))"

section \<open>Choosing the groups\<close>

text \<open>
  What \<open>main\<close> calls and this development does not look into: the timestamp parser
  of \<open>group_items\<close>; \<open>ai_cluster_items\<close>, with the embeddings provider behind it (\<open>Inl\<close> when
  it raises); and \<open>get_alias\<close> of the settings database, of which only a failure matters
  (\<open>Some msg\<close>), its value being printed and not returned.
\<close>

record cluster =
  label :: string
  cl_item_ids_oldest_first :: "string list"
  cl_count :: int

record collaborators =
  parse_ts :: "string option \<Rightarrow> int"
  ai_cluster_items :: "raw_item list \<Rightarrow> string + cluster list"
  get_alias :: "string \<Rightarrow> string \<Rightarrow> string option"

definition as_group :: "cluster \<Rightarrow> group" where
  "as_group g =
     \<lparr>subject_norm = label g,
      item_ids_oldest_first = cl_item_ids_oldest_first g,
      count = cl_count g\<rparr>"

text \<open>\<open>xs[:n]\<close> for a Python integer \<open>n\<close>: a negative \<open>n\<close> counts from the end.\<close>

definition py_take :: "int \<Rightarrow> 'a list \<Rightarrow> 'a list" where
  "py_take n xs = (if 0 \<le> n then take (nat n) xs else take (length xs - nat (- n)) xs)"

definition exact_first :: "config \<Rightarrow> group list \<Rightarrow> group list" where
  "exact_first cfg grouped_exact = filter (\<lambda>g. count g \<ge> MIN_COUNT cfg) grouped_exact"

definition used_ids :: "group list \<Rightarrow> string set" where
  "used_ids gs = set (concat (map item_ids_oldest_first gs))"

definition leftovers :: "raw_item list \<Rightarrow> string set \<Rightarrow> raw_item list" where
  "leftovers items used = filter (\<lambda>it. item_id it \<notin> used) items"

definition hybrid_groups ::
    "config \<Rightarrow> collaborators \<Rightarrow> group list \<Rightarrow> raw_item list \<Rightarrow> string + group list" where
  "hybrid_groups cfg ext grouped_exact items =
     (let ef = exact_first cfg grouped_exact;
          lo = leftovers items (used_ids ef)
      in case ai_cluster_items ext lo of
           Inl e \<Rightarrow> Inl e
         | Inr ai_groups \<Rightarrow> Inr (py_take (MAX_GROUPS cfg) (ef @ map as_group ai_groups)))"

definition select_groups ::
    "config \<Rightarrow> collaborators \<Rightarrow> group list \<Rightarrow> raw_item list \<Rightarrow> string + group list" where
  "select_groups cfg ext grouped_exact items =
     (if GROUPING cfg = ''exact''
      then Inr (py_take (MAX_GROUPS cfg) (filter (\<lambda>g. count g \<ge> MIN_COUNT cfg) grouped_exact))
      else if GROUPING cfg = ''ai''
      then (case ai_cluster_items ext items of
              Inl e \<Rightarrow> Inl e
            | Inr ai_groups \<Rightarrow> Inr (py_take (MAX_GROUPS cfg) (map as_group ai_groups)))
      else hybrid_groups cfg ext grouped_exact items)"

section \<open>Processing the groups\<close>

record run_summary =
  processed_groups :: int
  created_subitems :: int
  moved_originals :: int
  archived_originals :: int
  combined_items :: "(string option \<times> string option list) list"
  moved_items :: "string option list"
  archived_items :: "string option list"

text \<open>The locals of \<open>main\<close> that the loop over the groups updates, with the summary.\<close>

record progress =
  summary :: run_summary
  total_created :: int
  moved :: int
  archived :: int

text \<open>\<open>id_to_name.get(cid, f"Item {cid}")\<close>.\<close>

definition display_name :: "(string \<rightharpoonup> string option) \<Rightarrow> string \<Rightarrow> string option" where
  "display_name id_to_name cid =
     (case id_to_name cid of None \<Rightarrow> Some (''Item '' @ cid) | Some v \<Rightarrow> v)"

text \<open>
  \<open>pending\<close>: the children whose name, \<open>(... or "").strip()\<close>, is not empty and not in
  \<open>existing\<close>, each with that name.
\<close>

definition pending_of ::
    "(string \<rightharpoonup> string option) \<Rightarrow> string set \<Rightarrow> string list \<Rightarrow> (string \<times> string) list" where
  "pending_of id_to_name existing children =
     filter (\<lambda>(cid, nm). nm \<noteq> [] \<and> nm \<notin> existing)
       (map (\<lambda>cid. (cid, strip (case display_name id_to_name cid of None \<Rightarrow> [] | Some n \<Rightarrow> n)))
          children)"

text \<open>
  \<open>[cid for cid in children if id_to_name.get(cid, "").strip() in existing]\<close>: a name that
  is \<open>None\<close> has no \<open>strip\<close>, and the comprehension raises \<open>AttributeError\<close>.
\<close>

fun already_present ::
    "(string \<rightharpoonup> string option) \<Rightarrow> string set \<Rightarrow> string list \<Rightarrow> string + string list" where
  "already_present id_to_name existing [] = Inr []"
| "already_present id_to_name existing (cid # children) =
     (case id_to_name cid of
        Some None \<Rightarrow> Inl ''AttributeError''
      | v \<Rightarrow>
          (case already_present id_to_name existing children of
             Inl e \<Rightarrow> Inl e
           | Inr rest \<Rightarrow>
               Inr (if strip (case v of Some (Some n) \<Rightarrow> n | _ \<Rightarrow> []) \<in> existing
                    then cid # rest else rest)))"

text \<open>
  One round of \<open>for g in groups\<close>. \<open>Inl msg\<close> is an exception that leaves \<open>main\<close>: of
  \<open>gql\<close> in \<open>get_existing_subitem_names\<close>, of the comprehension above, or of
  \<open>move_items\<close> and \<open>archive_items\<close>.
\<close>

definition process_group ::
    "config \<Rightarrow> server \<Rightarrow> (string \<rightharpoonup> string option) \<Rightarrow> group \<Rightarrow> progress \<Rightarrow> world \<Rightarrow>
     (string + progress) \<times> world" where
  "process_group cfg srv id_to_name g p w =
     (let ids = item_ids_oldest_first g
      in if length ids < 2 then (Inr p, w)
         else
           let parent = hd ids;
               children = py_take (MAX_CHILDREN cfg) (tl ids);
               parent_name = (case id_to_name parent of None \<Rightarrow> Some parent | Some v \<Rightarrow> v)
           in case get_existing_subitem_names srv parent w of
                (Inl e, w1) \<Rightarrow> (Inl e, w1)
              | (Inr existing, w1) \<Rightarrow>
                  let pending = pending_of id_to_name existing children;
                      names_to_create = map snd pending;
                      w2 = (if pending \<noteq> [] then create_subitems srv parent names_to_create w1
                            else w1);
                      p1 = (if pending \<noteq> []
                            then p\<lparr>total_created := total_created p + int (length names_to_create)\<rparr>
                            else p);
                      existing = (if pending \<noteq> [] then existing \<union> set names_to_create
                                  else existing)
                  in case already_present id_to_name existing children of
                       Inl e \<Rightarrow> (Inl e, w2)
                     | Inr present \<Rightarrow>
                         let represented_ids = map fst pending @ present;
                             names = map (display_name id_to_name) represented_ids;
                             sm = (if represented_ids \<noteq> []
                                   then (summary p1)\<lparr>combined_items :=
                                          combined_items (summary p1) @ [(parent_name, names)]\<rparr>
                                   else summary p1);
                             p2 = p1\<lparr>summary := sm\<rparr>
                         in if represented_ids \<noteq> []
                            then
                              if AFTER_ACTION cfg = ''move'' \<and> MOVE_GROUP_ID cfg \<noteq> []
                              then (case move_items srv represented_ids (MOVE_GROUP_ID cfg) w2 of
                                      (Some e, w3) \<Rightarrow> (Inl e, w3)
                                    | (None, w3) \<Rightarrow>
                                        (Inr (p2\<lparr>moved := moved p2 + int (length represented_ids),
                                                  summary := sm\<lparr>moved_items :=
                                                    moved_items sm @ names\<rparr>\<rparr>),
                                         sleep (1 / 20) w3))
                              else if AFTER_ACTION cfg = ''archive''
                              then (case archive_items srv represented_ids w2 of
                                      (Some e, w3) \<Rightarrow> (Inl e, w3)
                                    | (None, w3) \<Rightarrow>
                                        (Inr (p2\<lparr>archived := archived p2 + int (length represented_ids),
                                                  summary := sm\<lparr>archived_items :=
                                                    archived_items sm @ names\<rparr>\<rparr>),
                                         sleep (1 / 20) w3))
                              else (Inr p2, sleep (1 / 20) w2)
                            else (Inr p2, sleep (1 / 20) w2))"

fun process_groups ::
    "config \<Rightarrow> server \<Rightarrow> (string \<rightharpoonup> string option) \<Rightarrow> group list \<Rightarrow> progress \<Rightarrow> world \<Rightarrow>
     (string + progress) \<times> world" where
  "process_groups cfg srv id_to_name [] p w = (Inr p, w)"
| "process_groups cfg srv id_to_name (g # groups) p w =
     (case process_group cfg srv id_to_name g p w of
        (Inl e, w1) \<Rightarrow> (Inl e, w1)
      | (Inr p1, w1) \<Rightarrow> process_groups cfg srv id_to_name groups p1 w1)"

section \<open>\<open>main\<close>\<close>

definition initial_progress :: progress where
  "initial_progress =
     \<lparr>summary =
        \<lparr>processed_groups = 0, created_subitems = 0, moved_originals = 0,
         archived_originals = 0, combined_items = [], moved_items = [], archived_items = []\<rparr>,
      total_created = 0, moved = 0, archived = 0\<rparr>"

text \<open>
  \<open>main\<close> from the point where \<open>fetch_all\<close> has returned \<open>items\<close>, in the world \<open>w\<close> that
  the fetch left. The result is the exception that ends the run or the summary returned,
  with the world the run leaves in either case. Of the summary the counters and the three
  lists of names that the loop fills are kept.
\<close>

definition main ::
    "config \<Rightarrow> collaborators \<Rightarrow> server \<Rightarrow> raw_item list \<Rightarrow> world \<Rightarrow> (string + run_summary) \<times> world" where
  "main cfg ext srv items w =
     (let (grouped_exact, id_to_name) = group_items (parse_ts ext) items
      in case select_groups cfg ext grouped_exact items of
           Inl e \<Rightarrow> (Inl e, w)
         | Inr groups \<Rightarrow>
             (case process_groups cfg srv id_to_name groups initial_progress w of
                (Inl e, w1) \<Rightarrow> (Inl e, w1)
              | (Inr p, w1) \<Rightarrow>
                  let sm = (summary p)\<lparr>processed_groups := int (length groups),
                                        created_subitems := total_created p,
                                        moved_originals := moved p,
                                        archived_originals := archived p\<rparr>
                  in case get_alias ext ''board'' (BOARD_ID cfg) of
                       Some e \<Rightarrow> (Inl e, w1)
                     | None \<Rightarrow>
                         (case (if MOVE_GROUP_ID cfg \<noteq> []
                                then get_alias ext ''group'' (MOVE_GROUP_ID cfg) else None) of
                            Some e \<Rightarrow> (Inl e, w1)
                          | None \<Rightarrow> (Inr sm, w1))))"

section \<open>The retry wrapper under rate limiting\<close>

lemma backoff_step: "min (min (2 ^ a / 2) 5 * 2) (5::rat) = min (2 ^ Suc a / 2) 5"
  by (simp add: min_def)

lemma backoff_strict:
  "min (2 ^ k / 2) 5 + of_nat k / 10 < (min (2 ^ Suc k / 2) 5 + of_nat (Suc k) / 10 :: rat)"
proof -
  have "(2::rat) ^ k / 2 \<le> 2 ^ Suc k / 2" by simp
  then have "min ((2::rat) ^ k / 2) 5 \<le> min (2 ^ Suc k / 2) 5"
    by (rule min.mono) simp
  moreover have "(of_nat k / 10 :: rat) < of_nat (Suc k) / 10" by simp
  ultimately show ?thesis by (rule add_le_less_mono)
qed

lemma backoff_mono:
  "i < j \<Longrightarrow> min (2 ^ i / 2) 5 + of_nat i / 10 < (min (2 ^ j / 2) 5 + of_nat j / 10 :: rat)"
proof (induction j)
  case 0
  then show ?case by simp
next
  case (Suc j)
  show ?case
  proof (cases "i = j")
    case True
    then show ?thesis using backoff_strict [of j] by simp
  next
    case False
    with Suc have "min (2 ^ i / 2) 5 + of_nat i / 10 < (min (2 ^ j / 2) 5 + of_nat j / 10 :: rat)"
      by simp
    also have "\<dots> < min (2 ^ Suc j / 2) 5 + of_nat (Suc j) / 10"
      by (rule backoff_strict)
    finally show ?thesis .
  qed
qed

lemma backoff_sorted:
  "sorted_wrt (<) (map (\<lambda>k. min (2 ^ k / 2) 5 + of_nat k / 10 :: rat) [a..<b])"
proof -
  have "sorted_wrt (\<lambda>i j. min (2 ^ i / 2) 5 + of_nat i / 10 < (min (2 ^ j / 2) 5 + of_nat j / 10 :: rat)) [a..<b]"
    by (rule sorted_wrt_mono_rel [OF _ sorted_wrt_upt]) (simp add: backoff_mono)
  then show ?thesis by (simp add: sorted_wrt_map)
qed

lemma gql_with_retry_from_all_transient:
  assumes "\<And>k. k < n \<Longrightarrow> \<exists>msg. srv (calls w0 @ replicate k q) q = Inl msg \<and> transient msg"
  shows "a < n \<Longrightarrow> calls w = calls w0 @ replicate a q \<Longrightarrow>
    \<exists>msg w'. gql_with_retry_from srv q (int n) (int a) (min (2 ^ a / 2) 5) w = (Inl msg, w')
      \<and> srv (calls w0 @ replicate (n - 1) q) q = Inl msg
      \<and> calls w' = calls w0 @ replicate n q
      \<and> slept w' = slept w @ map (\<lambda>k. min (2 ^ k / 2) 5 + of_nat k / 10) [a..<n - 1]
      \<and> printed w' = printed w"
proof (induction "n - a" arbitrary: a w)
  case 0
  then show ?case by simp
next
  case (Suc d)
  from Suc.prems assms [of a] obtain msg where
    msg: "srv (calls w0 @ replicate a q) q = Inl msg" "transient msg"
    by auto
  let ?w1 = "w\<lparr>calls := calls w @ [q]\<rparr>"
  have g: "gql srv q w = (Inl msg, ?w1)"
    using msg Suc.prems by (simp add: gql_def)
  show ?case
  proof (cases "Suc a = n")
    case True
    then have "gql_with_retry_from srv q (int n) (int a) (min (2 ^ a / 2) 5) w = (Inl msg, ?w1)"
      using g by (subst gql_with_retry_from.simps) auto
    moreover have "calls ?w1 = calls w0 @ replicate n q"
      using True Suc.prems by (auto simp: replicate_append_same)
    ultimately show ?thesis using True msg by auto
  next
    case False
    with Suc.prems have lt: "Suc a < n" by simp
    let ?w2 = "sleep (min (2 ^ a / 2) 5 + (1 / 10) * of_int (int a)) ?w1"
    have "gql_with_retry_from srv q (int n) (int a) (min (2 ^ a / 2) 5) w =
        gql_with_retry_from srv q (int n) (int a + 1) (min (min (2 ^ a / 2) 5 * 2) 5) ?w2"
      using g msg lt by (subst gql_with_retry_from.simps) simp
    also have "int a + 1 = int (Suc a)"
      by simp
    also have "min (min (2 ^ a / 2) 5 * 2) (5::rat) = min (2 ^ Suc a / 2) 5"
      by (rule backoff_step)
    finally have step: "gql_with_retry_from srv q (int n) (int a) (min (2 ^ a / 2) 5) w =
        gql_with_retry_from srv q (int n) (int (Suc a)) (min (2 ^ Suc a / 2) 5) ?w2" .
    have c2: "calls ?w2 = calls w0 @ replicate (Suc a) q"
      using Suc.prems by (simp add: sleep_def replicate_append_same)
    have "d = n - Suc a" using Suc.hyps by simp
    from Suc.hyps(1) [OF this lt c2] obtain m w' where
      r: "gql_with_retry_from srv q (int n) (int (Suc a)) (min (2 ^ Suc a / 2) 5) ?w2 = (Inl m, w')"
         "srv (calls w0 @ replicate (n - 1) q) q = Inl m"
         "calls w' = calls w0 @ replicate n q"
         "slept w' = slept ?w2 @ map (\<lambda>k. min (2 ^ k / 2) 5 + of_nat k / 10) [Suc a..<n - 1]"
         "printed w' = printed ?w2"
      by blast
    have "[a..<n - 1] = a # [Suc a..<n - 1]"
      using lt by (simp add: upt_conv_Cons)
    then have "slept w' = slept w @ map (\<lambda>k. min (2 ^ k / 2) 5 + of_nat k / 10) [a..<n - 1]"
      using r(4) by (simp add: sleep_def)
    then show ?thesis using step r by (simp add: sleep_def)
  qed
qed

lemma contains_transient: "contains ''HTTP 429'' msg \<Longrightarrow> transient msg"
  by (simp add: transient_def)

text \<open>
  Claim C3. When every attempt of a request fails with a message that contains
  \<open>HTTP 429\<close>, \<open>gql_with_retry\<close> with \<open>max_retries = n\<close> (5 by default) sends the request
  \<open>n\<close> times and then raises the error of the last attempt. Between the attempts it
  sleeps \<open>n - 1\<close> times; the sleep after attempt \<open>k\<close> (from 0) lasts
  \<open>min (0.5 * 2^k) 5.0 + 0.1 * k\<close>, and these durations are strictly increasing.
\<close>

theorem gql_with_retry_http_429:
  assumes "1 \<le> n"
    and "\<And>k. k < n \<Longrightarrow> \<exists>msg. srv (calls w @ replicate k q) q = Inl msg \<and> contains ''HTTP 429'' msg"
  shows "\<exists>msg w'. gql_with_retry srv q (int n) w = (Inl msg, w')
      \<and> srv (calls w @ replicate (n - 1) q) q = Inl msg
      \<and> calls w' = calls w @ replicate n q
      \<and> slept w' = slept w @ map (\<lambda>k. min (2 ^ k / 2) 5 + of_nat k / 10) [0..<n - 1]
      \<and> sorted_wrt (<) (map (\<lambda>k. min (2 ^ k / 2) 5 + of_nat k / 10 :: rat) [0..<n - 1])"
proof -
  have tr: "\<And>k. k < n \<Longrightarrow> \<exists>msg. srv (calls w @ replicate k q) q = Inl msg \<and> transient msg"
    using assms(2) contains_transient by blast
  have "0 < n" using assms(1) by simp
  from gql_with_retry_from_all_transient [of n srv w q 0 w, OF tr this]
  obtain msg w' where r:
    "gql_with_retry_from srv q (int n) (int 0) (min (2 ^ 0 / 2) 5) w = (Inl msg, w')"
    "srv (calls w @ replicate (n - 1) q) q = Inl msg"
    "calls w' = calls w @ replicate n q"
    "slept w' = slept w @ map (\<lambda>k. min (2 ^ k / 2) 5 + of_nat k / 10) [0..<n - 1]"
    by auto
  from r(1) have "gql_with_retry srv q (int n) w = (Inl msg, w')"
    by (simp add: gql_with_retry_def)
  then show ?thesis
    using r(2,3,4) backoff_sorted [of 0 "n - 1"] by blast
qed

text \<open>A server that answers every request with status 429, and a world with no history.\<close>

definition always_429 :: server where
  "always_429 hist q = Inl ''HTTP 429 from Monday. Body: ''"

definition empty_world :: world where
  "empty_world = \<lparr>calls = [], slept = [], printed = []\<rparr>"

theorem gql_with_retry_http_429_witness:
  "(\<exists>msg w'. gql_with_retry always_429 (CreateSubitem ''p'' ''a'') 5 empty_world = (Inl msg, w')
      \<and> msg = ''HTTP 429 from Monday. Body: ''
      \<and> calls w' = replicate 5 (CreateSubitem ''p'' ''a'')
      \<and> slept w' = [1 / 2, 11 / 10, 11 / 5, 43 / 10])
   \<and> sorted_wrt (<) [1 / 2, 11 / 10, 11 / 5, 43 / 10 :: rat]"
proof -
  have "\<And>k. k < 5 \<Longrightarrow> \<exists>msg. always_429 (calls empty_world @ replicate k (CreateSubitem ''p'' ''a'')) (CreateSubitem ''p'' ''a'') = Inl msg \<and> contains ''HTTP 429'' msg"
    by (simp add: always_429_def)
  moreover have "[0..<4::nat] = [0, 1, 2, 3]"
    by code_simp
  ultimately show ?thesis
    using gql_with_retry_http_429 [of 5 always_429 empty_world "CreateSubitem ''p'' ''a''"]
    by (simp add: empty_world_def always_429_def)
qed

section \<open>Exact grouping as a partition\<close>

lemma setdefault_append_keys:
  "map fst (setdefault_append d k it) = (if k \<in> fst ` set d then map fst d else map fst d @ [k])"
  by (induction d k it rule: setdefault_append.induct) auto

lemma setdefault_append_members:
  "(\<Union>e \<in> set (setdefault_append d k it). set (snd e)) = insert it (\<Union>e \<in> set d. set (snd e))"
  by (induction d k it rule: setdefault_append.induct) auto

text \<open>
  The invariant of \<open>by_subj\<close>: the keys are distinct, and every item is filed under its own
  normalised subject.
\<close>

definition keyed :: "(string \<times> shaped_item list) list \<Rightarrow> bool" where
  "keyed d = (distinct (map fst d) \<and> (\<forall>e \<in> set d. \<forall>x \<in> set (snd e). sh_subject_norm x = fst e))"

lemma setdefault_append_values:
  "\<forall>e \<in> set d. \<forall>x \<in> set (snd e). sh_subject_norm x = fst e \<Longrightarrow> sh_subject_norm it = k \<Longrightarrow>
   \<forall>e \<in> set (setdefault_append d k it). \<forall>x \<in> set (snd e). sh_subject_norm x = fst e"
  by (induction d k it rule: setdefault_append.induct) auto

lemma keyed_setdefault_append:
  assumes "keyed d"
  shows "keyed (setdefault_append d (sh_subject_norm it) it)"
proof -
  from assms have d: "distinct (map fst d)"
    and v: "\<forall>e \<in> set d. \<forall>x \<in> set (snd e). sh_subject_norm x = fst e"
    by (simp_all add: keyed_def)
  from d have "distinct (map fst (setdefault_append d (sh_subject_norm it) it))"
    by (simp add: setdefault_append_keys)
  moreover from v have "\<forall>e \<in> set (setdefault_append d (sh_subject_norm it) it).
      \<forall>x \<in> set (snd e). sh_subject_norm x = fst e"
    by (rule setdefault_append_values) simp
  ultimately show ?thesis
    by (simp only: keyed_def simp_thms)
qed

lemma foldl_setdefault_append:
  "keyed d \<Longrightarrow>
   keyed (foldl (\<lambda>d it. setdefault_append d (sh_subject_norm it) it) d shaped)
   \<and> (\<Union>e \<in> set (foldl (\<lambda>d it. setdefault_append d (sh_subject_norm it) it) d shaped). set (snd e))
       = (\<Union>e \<in> set d. set (snd e)) \<union> set shaped"
proof (induction shaped arbitrary: d)
  case Nil
  then show ?case by simp
next
  case (Cons it shaped)
  from Cons.prems have "keyed (setdefault_append d (sh_subject_norm it) it)"
    by (rule keyed_setdefault_append)
  from Cons.IH [OF this] show ?case
    by (simp add: setdefault_append_members)
qed

lemma keyed_Nil: "keyed []"
  by (simp add: keyed_def)

lemma keyed_build_by_subj: "keyed (build_by_subj shaped)"
  using foldl_setdefault_append [OF keyed_Nil, of shaped] by (simp add: build_by_subj_def)

lemma members_build_by_subj: "(\<Union>e \<in> set (build_by_subj shaped). set (snd e)) = set shaped"
  using foldl_setdefault_append [OF keyed_Nil, of shaped] by (simp add: build_by_subj_def)

lemma keyed_subject:
  "keyed d \<Longrightarrow> e \<in> set d \<Longrightarrow> x \<in> set (snd e) \<Longrightarrow> sh_subject_norm x = fst e"
  by (simp add: keyed_def)

lemma keyed_same_key:
  assumes "keyed d" "e1 \<in> set d" "e2 \<in> set d" "fst e1 = fst e2"
  shows "e1 = e2"
proof -
  from assms(1) have "inj_on fst (set d)"
    by (simp add: keyed_def distinct_map)
  then show ?thesis
    using assms(2,3,4) by (simp add: inj_on_def)
qed


lemma ids_make_group: "set (item_ids_oldest_first (make_group kv)) = sh_id ` set (snd kv)"
  by (simp add: make_group_def Let_def)

lemma subject_make_group: "subject_norm (make_group kv) = fst kv"
  by (simp add: make_group_def Let_def)

lemma set_grouped:
  "set (fst (group_items ts items)) = make_group ` set (build_by_subj (map (shape ts) items))"
  by (simp add: group_items_def Let_def)

lemma shaped_member:
  "a \<in> set items \<Longrightarrow>
   \<exists>e \<in> set (build_by_subj (map (shape ts) items)). shape ts a \<in> set (snd e)"
proof -
  assume "a \<in> set items"
  then have "shape ts a \<in> set (map (shape ts) items)"
    by simp
  then have "shape ts a \<in> (\<Union>e \<in> set (build_by_subj (map (shape ts) items)). set (snd e))"
    by (simp only: members_build_by_subj)
  then show ?thesis
    by blast
qed

lemma member_shaped:
  "e \<in> set (build_by_subj (map (shape ts) items)) \<Longrightarrow> x \<in> set (snd e) \<Longrightarrow>
   \<exists>a \<in> set items. x = shape ts a"
proof -
  assume "e \<in> set (build_by_subj (map (shape ts) items))" "x \<in> set (snd e)"
  then have "x \<in> (\<Union>e \<in> set (build_by_subj (map (shape ts) items)). set (snd e))"
    by blast
  then have "x \<in> set (map (shape ts) items)"
    by (simp only: members_build_by_subj)
  then show ?thesis
    by auto
qed


lemma group_ids_union:
  "(\<Union>g \<in> set (fst (group_items ts items)). set (item_ids_oldest_first g)) = item_id ` set items"
proof (rule set_eqI, rule iffI)
  fix i
  assume "i \<in> (\<Union>g \<in> set (fst (group_items ts items)). set (item_ids_oldest_first g))"
  then obtain e x where e: "e \<in> set (build_by_subj (map (shape ts) items))"
    and x: "x \<in> set (snd e)" and i: "i = sh_id x"
    by (auto simp: set_grouped ids_make_group)
  from member_shaped [OF e x] obtain a where "a \<in> set items" "x = shape ts a"
    by blast
  then show "i \<in> item_id ` set items"
    by (simp add: i shape_def)
next
  fix i
  assume "i \<in> item_id ` set items"
  then obtain a where a: "a \<in> set items" and i: "i = item_id a"
    by blast
  from shaped_member [OF a, of ts] obtain e where
    e: "e \<in> set (build_by_subj (map (shape ts) items))" and m: "shape ts a \<in> set (snd e)"
    by blast
  have "sh_id (shape ts a) = i"
    by (simp add: i shape_def)
  with m have "i \<in> set (item_ids_oldest_first (make_group e))"
    by (auto simp: ids_make_group)
  moreover from e have "make_group e \<in> set (fst (group_items ts items))"
    by (simp add: set_grouped)
  ultimately show "i \<in> (\<Union>g \<in> set (fst (group_items ts items)). set (item_ids_oldest_first g))"
    by blast
qed


lemma id_in_group_iff:
  assumes "g \<in> set (fst (group_items ts items))"
  shows "i \<in> set (item_ids_oldest_first g) \<longleftrightarrow>
     (\<exists>a \<in> set items. item_id a = i \<and> normalize_subject (item_name a) = subject_norm g)"
proof -
  let ?d = "build_by_subj (map (shape ts) items)"
  from assms obtain e where e: "e \<in> set ?d" and g: "g = make_group e"
    by (auto simp: set_grouped)
  have k: "keyed ?d"
    by (rule keyed_build_by_subj)
  show ?thesis
  proof
    assume "i \<in> set (item_ids_oldest_first g)"
    then obtain x where x: "x \<in> set (snd e)" and xi: "sh_id x = i"
      by (auto simp: g ids_make_group)
    from k e x have "sh_subject_norm x = fst e"
      by (rule keyed_subject)
    moreover from member_shaped [OF e x] obtain a where "a \<in> set items" "x = shape ts a"
      by blast
    ultimately show "\<exists>a \<in> set items. item_id a = i \<and> normalize_subject (item_name a) = subject_norm g"
      using xi by (auto simp: g subject_make_group shape_def)
  next
    assume "\<exists>a \<in> set items. item_id a = i \<and> normalize_subject (item_name a) = subject_norm g"
    then obtain a where a: "a \<in> set items" and ai: "item_id a = i"
      and an: "normalize_subject (item_name a) = fst e"
      by (auto simp: g subject_make_group)
    from shaped_member [OF a, of ts] obtain e' where
      e': "e' \<in> set ?d" and m: "shape ts a \<in> set (snd e')"
      by blast
    from k e' m have "sh_subject_norm (shape ts a) = fst e'"
      by (rule keyed_subject)
    then have "fst e' = fst e"
      using an by (simp add: shape_def)
    with k e' e have "e' = e"
      by (rule keyed_same_key)
    with m have "sh_id (shape ts a) \<in> sh_id ` set (snd e)"
      by blast
    then show "i \<in> set (item_ids_oldest_first g)"
      using ai by (simp add: g ids_make_group shape_def)
  qed
qed

lemma groups_same_subject:
  assumes "g1 \<in> set (fst (group_items ts items))" "g2 \<in> set (fst (group_items ts items))"
    "subject_norm g1 = subject_norm g2"
  shows "g1 = g2"
proof -
  let ?d = "build_by_subj (map (shape ts) items)"
  from assms(1) obtain e1 where e1: "e1 \<in> set ?d" "g1 = make_group e1"
    by (auto simp: set_grouped)
  from assms(2) obtain e2 where e2: "e2 \<in> set ?d" "g2 = make_group e2"
    by (auto simp: set_grouped)
  from assms(3) have "fst e1 = fst e2"
    by (simp add: e1 e2 subject_make_group)
  with keyed_build_by_subj e1(1) e2(1) have "e1 = e2"
    by (rule keyed_same_key)
  then show ?thesis
    by (simp add: e1 e2)
qed

lemma group_of_item:
  assumes "a \<in> set items"
  shows "\<exists>g \<in> set (fst (group_items ts items)). subject_norm g = normalize_subject (item_name a)"
proof -
  let ?d = "build_by_subj (map (shape ts) items)"
  from shaped_member [OF assms, of ts] obtain e where
    e: "e \<in> set ?d" and m: "shape ts a \<in> set (snd e)"
    by blast
  from keyed_build_by_subj e m have "sh_subject_norm (shape ts a) = fst e"
    by (rule keyed_subject)
  then have "subject_norm (make_group e) = normalize_subject (item_name a)"
    by (simp add: subject_make_group shape_def)
  moreover from e have "make_group e \<in> set (fst (group_items ts items))"
    by (simp add: set_grouped)
  ultimately show ?thesis
    by blast
qed


text \<open>
  The member ids of all groups together are the ids of the input, and the member-id sets
  of different groups are disjoint exactly when items that share an id share their
  normalised subject.
\<close>

lemma group_ids_disjoint_iff:
  "(\<Union>g \<in> set (fst (group_items ts items)). set (item_ids_oldest_first g)) = item_id ` set items
   \<and> ((\<forall>g1 \<in> set (fst (group_items ts items)). \<forall>g2 \<in> set (fst (group_items ts items)).
          g1 \<noteq> g2 \<longrightarrow> set (item_ids_oldest_first g1) \<inter> set (item_ids_oldest_first g2) = {})
       \<longleftrightarrow>
       (\<forall>a \<in> set items. \<forall>b \<in> set items.
          item_id a = item_id b \<longrightarrow>
          normalize_subject (item_name a) = normalize_subject (item_name b)))"
proof (rule conjI)
  show "(\<Union>g \<in> set (fst (group_items ts items)). set (item_ids_oldest_first g)) = item_id ` set items"
    by (rule group_ids_union)
next
  let ?G = "set (fst (group_items ts items))"
  show "(\<forall>g1 \<in> ?G. \<forall>g2 \<in> ?G.
          g1 \<noteq> g2 \<longrightarrow> set (item_ids_oldest_first g1) \<inter> set (item_ids_oldest_first g2) = {})
       \<longleftrightarrow>
       (\<forall>a \<in> set items. \<forall>b \<in> set items.
          item_id a = item_id b \<longrightarrow>
          normalize_subject (item_name a) = normalize_subject (item_name b))"
  proof (intro iffI ballI impI)
    fix a b
    assume disj: "\<forall>g1 \<in> ?G. \<forall>g2 \<in> ?G.
          g1 \<noteq> g2 \<longrightarrow> set (item_ids_oldest_first g1) \<inter> set (item_ids_oldest_first g2) = {}"
      and a: "a \<in> set items" and b: "b \<in> set items" and ab: "item_id a = item_id b"
    from group_of_item [OF a, of ts] obtain g1 where g1: "g1 \<in> ?G"
      and s1: "subject_norm g1 = normalize_subject (item_name a)"
      by blast
    from group_of_item [OF b, of ts] obtain g2 where g2: "g2 \<in> ?G"
      and s2: "subject_norm g2 = normalize_subject (item_name b)"
      by blast
    have "item_id a \<in> set (item_ids_oldest_first g1)"
      using id_in_group_iff [OF g1, of "item_id a"] a s1 by auto
    moreover have "item_id a \<in> set (item_ids_oldest_first g2)"
      using id_in_group_iff [OF g2, of "item_id a"] b ab s2 by auto
    ultimately have "set (item_ids_oldest_first g1) \<inter> set (item_ids_oldest_first g2) \<noteq> {}"
      by blast
    with disj g1 g2 have "g1 = g2"
      by blast
    then show "normalize_subject (item_name a) = normalize_subject (item_name b)"
      using s1 s2 by simp
  next
    fix g1 g2
    assume same: "\<forall>a \<in> set items. \<forall>b \<in> set items.
          item_id a = item_id b \<longrightarrow>
          normalize_subject (item_name a) = normalize_subject (item_name b)"
      and g1: "g1 \<in> ?G" and g2: "g2 \<in> ?G" and ne: "g1 \<noteq> g2"
    show "set (item_ids_oldest_first g1) \<inter> set (item_ids_oldest_first g2) = {}"
    proof (rule ccontr)
      assume "set (item_ids_oldest_first g1) \<inter> set (item_ids_oldest_first g2) \<noteq> {}"
      then obtain i where i1: "i \<in> set (item_ids_oldest_first g1)"
        and i2: "i \<in> set (item_ids_oldest_first g2)"
        by blast
      from i1 id_in_group_iff [OF g1, of i] obtain a where a: "a \<in> set items" "item_id a = i"
        "normalize_subject (item_name a) = subject_norm g1"
        by blast
      from i2 id_in_group_iff [OF g2, of i] obtain b where b: "b \<in> set items" "item_id b = i"
        "normalize_subject (item_name b) = subject_norm g2"
        by blast
      from same a(1) b(1) have "item_id a = item_id b \<longrightarrow>
          normalize_subject (item_name a) = normalize_subject (item_name b)"
        by blast
      with a b have "subject_norm g1 = subject_norm g2"
        by simp
      with g1 g2 have "g1 = g2"
        by (rule groups_same_subject)
      with ne show False
        by simp
    qed
  qed
qed


text \<open>
  Claim C5. The remote board gives every item an id of its own, so the ids of a fetched
  item list are distinct. For every such list the exact groups partition the ids: the
  member ids of all groups together are the ids of the input, and the member-id sets of
  different groups are disjoint.
\<close>

theorem group_items_partition:
  assumes "distinct (map item_id items)"
  shows "(\<Union>g \<in> set (fst (group_items ts items)). set (item_ids_oldest_first g)) = item_id ` set items
   \<and> (\<forall>g1 \<in> set (fst (group_items ts items)). \<forall>g2 \<in> set (fst (group_items ts items)).
          g1 \<noteq> g2 \<longrightarrow> set (item_ids_oldest_first g1) \<inter> set (item_ids_oldest_first g2) = {})"
proof -
  from assms have inj: "inj_on item_id (set items)"
    by (simp add: distinct_map)
  have same: "\<forall>a \<in> set items. \<forall>b \<in> set items.
      item_id a = item_id b \<longrightarrow>
      normalize_subject (item_name a) = normalize_subject (item_name b)"
  proof (intro ballI impI)
    fix a b
    assume "a \<in> set items" "b \<in> set items" "item_id a = item_id b"
    with inj have "a = b"
      by (simp add: inj_on_def)
    then show "normalize_subject (item_name a) = normalize_subject (item_name b)"
      by simp
  qed
  note p = group_ids_disjoint_iff [of ts items]
  from p have "(\<Union>g \<in> set (fst (group_items ts items)). set (item_ids_oldest_first g))
      = item_id ` set items"
    by (rule conjunct1)
  moreover from p [THEN conjunct2, THEN iffD2, OF same]
  have "\<forall>g1 \<in> set (fst (group_items ts items)). \<forall>g2 \<in> set (fst (group_items ts items)).
          g1 \<noteq> g2 \<longrightarrow> set (item_ids_oldest_first g1) \<inter> set (item_ids_oldest_first g2) = {}" .
  ultimately show ?thesis
    by (rule conjI)
qed

text \<open>Three items with distinct ids, two of them of one subject.\<close>

definition site_visit_items :: "raw_item list" where
  "site_visit_items =
     [\<lparr>item_id = ''1'', item_name = Some ''RE: Site Visit Request'', created_at = None,
       item_group = None\<rparr>,
      \<lparr>item_id = ''2'', item_name = Some ''Site Visit Request (Urgent)'', created_at = None,
       item_group = None\<rparr>,
      \<lparr>item_id = ''3'', item_name = Some ''Invoice'', created_at = None, item_group = None\<rparr>]"

lemma site_visit_groups:
  "fst (group_items (\<lambda>_. 0) site_visit_items) =
     [\<lparr>subject_norm = ''site visit request'', item_ids_oldest_first = [''1'', ''2''], count = 2\<rparr>,
      \<lparr>subject_norm = ''invoice'', item_ids_oldest_first = [''3''], count = 1\<rparr>]"
  by code_simp

theorem group_items_partition_witness:
  "distinct (map item_id site_visit_items)
   \<and> fst (group_items (\<lambda>_. 0) site_visit_items) =
     [\<lparr>subject_norm = ''site visit request'', item_ids_oldest_first = [''1'', ''2''], count = 2\<rparr>,
      \<lparr>subject_norm = ''invoice'', item_ids_oldest_first = [''3''], count = 1\<rparr>]
   \<and> (\<Union>g \<in> set (fst (group_items (\<lambda>_. 0) site_visit_items)). set (item_ids_oldest_first g))
       = {''1'', ''2'', ''3''}
   \<and> set [''1'', ''2''] \<inter> set [''3''] = ({} :: string set)"
proof -
  have d: "distinct (map item_id site_visit_items)"
    by (simp add: site_visit_items_def)
  from group_items_partition [OF d, of "\<lambda>_. 0"]
  have "(\<Union>g \<in> set (fst (group_items (\<lambda>_. 0) site_visit_items)). set (item_ids_oldest_first g))
          = item_id ` set site_visit_items"
    and "\<forall>g1 \<in> set (fst (group_items (\<lambda>_. 0) site_visit_items)).
         \<forall>g2 \<in> set (fst (group_items (\<lambda>_. 0) site_visit_items)).
          g1 \<noteq> g2 \<longrightarrow> set (item_ids_oldest_first g1) \<inter> set (item_ids_oldest_first g2) = {}"
    by (rule conjunct1, rule conjunct2)
  then show ?thesis
    unfolding site_visit_groups using d by (simp add: site_visit_items_def)
qed

section \<open>The hybrid plan\<close>

text \<open>
  The defaults of the source for the settings, and a run without \<open>OPENAI_API_KEY\<close>, in
  which \<open>ai_cluster_items\<close> returns no cluster.
\<close>

definition example_config :: config where
  "example_config =
     \<lparr>BOARD_ID = ''3981892064'', GROUPING = ''hybrid'', MIN_COUNT = 2, MAX_GROUPS = 8,
      MAX_CHILDREN = 25, AFTER_ACTION = ''none'', MOVE_GROUP_ID = []\<rparr>"

definition no_api_key :: collaborators where
  "no_api_key =
     \<lparr>parse_ts = (\<lambda>_. 0), ai_cluster_items = (\<lambda>_. Inr []), get_alias = (\<lambda>_ _. None)\<rparr>"

text \<open>
  Claim C4. In the hybrid branch the clusterer is called on \<open>leftovers\<close>, the items whose id
  is in no exact group with \<open>count >= MIN_COUNT\<close>, and the ids of those exact groups are
  disjoint from the ids of the items passed to the clusterer, for every item list and
  every configuration.
\<close>

theorem hybrid_exact_disjoint_from_leftovers:
  "hybrid_groups cfg ext (fst (group_items ts items)) items =
     (case ai_cluster_items ext
             (leftovers items (used_ids (exact_first cfg (fst (group_items ts items))))) of
        Inl e \<Rightarrow> Inl e
      | Inr ai_groups \<Rightarrow>
          Inr (py_take (MAX_GROUPS cfg)
                 (exact_first cfg (fst (group_items ts items)) @ map as_group ai_groups)))
   \<and> used_ids (exact_first cfg (fst (group_items ts items)))
       \<inter> item_id ` set (leftovers items (used_ids (exact_first cfg (fst (group_items ts items)))))
       = {}"
  by (auto simp: hybrid_groups_def Let_def leftovers_def)

text \<open>On the three items above, the exact group takes ids 1 and 2, and item 3 is left over.\<close>

theorem hybrid_exact_disjoint_from_leftovers_witness:
  "used_ids (exact_first example_config (fst (group_items (\<lambda>_. 0) site_visit_items))) = {''1'', ''2''}
   \<and> map item_id (leftovers site_visit_items
         (used_ids (exact_first example_config (fst (group_items (\<lambda>_. 0) site_visit_items))))) = [''3'']
   \<and> {''1'', ''2''} \<inter> set [''3''] = ({} :: string set)"
proof -
  have u: "used_ids (exact_first example_config (fst (group_items (\<lambda>_. 0) site_visit_items))) = {''1'', ''2''}"
    unfolding site_visit_groups
    by (simp add: used_ids_def exact_first_def example_config_def)
  have l: "map item_id (leftovers site_visit_items {''1'', ''2''}) = [''3'']"
    by (simp add: leftovers_def site_visit_items_def)
  from hybrid_exact_disjoint_from_leftovers [of example_config no_api_key "\<lambda>_. 0" site_visit_items]
  show ?thesis
    unfolding u using l by simp
qed

section \<open>The mode dispatch\<close>

text \<open>
  Claim C10. A \<open>GROUPING\<close> value that is neither \<open>"exact"\<close> nor \<open>"ai"\<close> selects the hybrid
  strategy, whatever the string is; the dispatch has no error branch, so the choice of the
  groups fails only where the clusterer raises on the leftovers.
\<close>

theorem select_groups_unrecognised_is_hybrid:
  assumes "GROUPING cfg \<noteq> ''exact''" and "GROUPING cfg \<noteq> ''ai''"
  shows "select_groups cfg ext grouped_exact items = hybrid_groups cfg ext grouped_exact items
    \<and> (\<forall>e. select_groups cfg ext grouped_exact items = Inl e \<longrightarrow>
          ai_cluster_items ext (leftovers items (used_ids (exact_first cfg grouped_exact))) = Inl e)"
  using assms by (auto simp: select_groups_def hybrid_groups_def Let_def split: sum.splits)

text \<open>A misspelt mode from the environment, lower-cased on the way, runs the hybrid strategy.\<close>

theorem select_groups_unrecognised_is_hybrid_witness:
  "resolve_GROUPING [''GROUPING'' \<mapsto> ''Hybird''] Map.empty = ''hybird''
   \<and> ''hybird'' \<noteq> ''exact'' \<and> ''hybird'' \<noteq> ''ai''
   \<and> select_groups (example_config\<lparr>GROUPING := ''hybird''\<rparr>) no_api_key
         (fst (group_items (\<lambda>_. 0) site_visit_items)) site_visit_items
       = hybrid_groups (example_config\<lparr>GROUPING := ''hybird''\<rparr>) no_api_key
         (fst (group_items (\<lambda>_. 0) site_visit_items)) site_visit_items
   \<and> hybrid_groups (example_config\<lparr>GROUPING := ''hybird''\<rparr>) no_api_key
         (fst (group_items (\<lambda>_. 0) site_visit_items)) site_visit_items
       = Inr [\<lparr>subject_norm = ''site visit request'', item_ids_oldest_first = [''1'', ''2''],
               count = 2\<rparr>]"
proof -
  have r: "resolve_GROUPING [''GROUPING'' \<mapsto> ''Hybird''] Map.empty = ''hybird''"
    by code_simp
  have g: "GROUPING (example_config\<lparr>GROUPING := ''hybird''\<rparr>) \<noteq> ''exact''"
    "GROUPING (example_config\<lparr>GROUPING := ''hybird''\<rparr>) \<noteq> ''ai''"
    by simp_all
  have h: "hybrid_groups (example_config\<lparr>GROUPING := ''hybird''\<rparr>) no_api_key
         (fst (group_items (\<lambda>_. 0) site_visit_items)) site_visit_items
       = Inr [\<lparr>subject_norm = ''site visit request'', item_ids_oldest_first = [''1'', ''2''],
               count = 2\<rparr>]"
    unfolding site_visit_groups
    by (simp add: hybrid_groups_def exact_first_def example_config_def no_api_key_def py_take_def
        as_group_def Let_def)
  from select_groups_unrecognised_is_hybrid [OF g, of no_api_key
      "fst (group_items (\<lambda>_. 0) site_visit_items)" site_visit_items] r h
  show ?thesis
    by simp
qed

section \<open>The requests a run sends\<close>

text \<open>
  \<open>extends_with P w w'\<close>: from \<open>w\<close> to \<open>w'\<close> requests were sent, and every one of them
  satisfies \<open>P\<close>.
\<close>

definition extends_with :: "(request \<Rightarrow> bool) \<Rightarrow> world \<Rightarrow> world \<Rightarrow> bool" where
  "extends_with P w w' = (\<exists>xs. calls w' = calls w @ xs \<and> (\<forall>q \<in> set xs. P q))"

lemma extends_with_refl: "extends_with P w w"
  by (simp add: extends_with_def)

lemma extends_with_trans:
  "extends_with P w w1 \<Longrightarrow> extends_with P w1 w2 \<Longrightarrow> extends_with P w w2"
  by (auto simp: extends_with_def)

lemma extends_with_same_calls:
  "calls w' = calls w \<Longrightarrow> extends_with P w w'"
  by (simp add: extends_with_def)

lemma extends_with_sleep: "extends_with P w w1 \<Longrightarrow> extends_with P w (sleep d w1)"
  by (simp add: extends_with_def sleep_def)

lemma extends_with_printed:
  "extends_with P w w1 \<Longrightarrow> extends_with P w (w1\<lparr>printed := x\<rparr>)"
  by (simp add: extends_with_def)

lemma extends_with_mono:
  "extends_with P w w' \<Longrightarrow> (\<And>q. P q \<Longrightarrow> Q q) \<Longrightarrow> extends_with Q w w'"
  by (auto simp: extends_with_def)

lemma extends_with_gql: "P q \<Longrightarrow> gql srv q w = (r, w') \<Longrightarrow> extends_with P w w'"
  by (auto simp: extends_with_def gql_def)

lemma extends_with_retry_from:
  "P q \<Longrightarrow> gql_with_retry_from srv q n a d w = (r, w') \<Longrightarrow> extends_with P w w'"
proof (induction srv q n a d w rule: gql_with_retry_from.induct)
  case (1 srv q max_retries attempt delay w)
  show ?case
  proof (cases "attempt < max_retries")
    case False
    with "1.prems"(2) have "w' = w"
      by (simp add: gql_with_retry_from.simps [of srv q max_retries attempt delay w])
    then show ?thesis by (simp add: extends_with_refl)
  next
    case True
    obtain r1 w1 where g: "gql srv q w = (r1, w1)"
      by (cases "gql srv q w")
    from "1.prems"(1) g have e1: "extends_with P w w1"
      by (rule extends_with_gql)
    show ?thesis
    proof (cases r1)
      case (Inr d)
      with True g "1.prems"(2) have "w' = w1"
        by (simp add: gql_with_retry_from.simps [of srv q max_retries attempt delay w])
      with e1 show ?thesis by simp
    next
      case (Inl msg)
      show ?thesis
      proof (cases "transient msg \<and> attempt < max_retries - 1")
        case False
        with True g Inl "1.prems"(2) have "w' = w1"
          by (auto simp: gql_with_retry_from.simps [of srv q max_retries attempt delay w])
        with e1 show ?thesis by simp
      next
        case t: True
        let ?w2 = "sleep (delay + (1 / 10) * of_int attempt) w1"
        from True g Inl t "1.prems"(2) have
          "gql_with_retry_from srv q max_retries (attempt + 1) (min (delay * 2) 5) ?w2 = (r, w')"
          by (simp add: gql_with_retry_from.simps [of srv q max_retries attempt delay w])
        with "1.IH" [OF True g [symmetric] Inl t "1.prems"(1)]
        have "extends_with P ?w2 w'"
          by simp
        moreover from e1 have "extends_with P w ?w2"
          by (rule extends_with_sleep)
        ultimately show ?thesis
          by (rule extends_with_trans [rotated])
      qed
    qed
  qed
qed

lemma extends_with_retry:
  "P q \<Longrightarrow> gql_with_retry srv q n w = (r, w') \<Longrightarrow> extends_with P w w'"
  unfolding gql_with_retry_def by (rule extends_with_retry_from)

text \<open>A request that creates child records under \<open>parent\<close>, with names from \<open>S\<close> only.\<close>

definition creates_only :: "string \<Rightarrow> string set \<Rightarrow> request \<Rightarrow> bool" where
  "creates_only parent S q =
     (case q of
        CreateSubitemsBatch p ns \<Rightarrow> p = parent \<and> set ns \<subseteq> S
      | CreateSubitem p n \<Rightarrow> p = parent \<and> n \<in> S
      | _ \<Rightarrow> False)"

lemma creates_only_mono: "creates_only parent S q \<Longrightarrow> S \<subseteq> T \<Longrightarrow> creates_only parent T q"
  by (auto simp: creates_only_def split: request.splits)

lemma extends_with_create_singles:
  "extends_with (creates_only parent_id (set chunk)) w (create_singles srv parent_id chunk w)"
proof (induction chunk arbitrary: w)
  case Nil
  show ?case by (simp add: extends_with_refl)
next
  case (Cons nm chunk)
  let ?P = "creates_only parent_id (set (nm # chunk))"
  obtain r w1 where g: "gql_with_retry srv (CreateSubitem parent_id nm) 5 w = (r, w1)"
    by (cases "gql_with_retry srv (CreateSubitem parent_id nm) 5 w")
  have "?P (CreateSubitem parent_id nm)"
    by (simp add: creates_only_def)
  then have e1: "extends_with ?P w w1"
    using g by (rule extends_with_retry)
  have rest: "extends_with ?P w2 (create_singles srv parent_id chunk w2)" for w2
    by (rule extends_with_mono [OF Cons.IH]) (auto elim: creates_only_mono)
  show ?case
  proof (cases r)
    case (Inr d)
    from e1 have "extends_with ?P w (sleep (1 / 20) w1)"
      by (rule extends_with_sleep)
    then have "extends_with ?P w (create_singles srv parent_id chunk (sleep (1 / 20) w1))"
      using rest by (rule extends_with_trans)
    then show ?thesis
      using g Inr by simp
  next
    case (Inl e2)
    from e1 have "extends_with ?P w (w1\<lparr>printed := printed w1 @ [(parent_id, nm, e2)]\<rparr>)"
      by (rule extends_with_printed)
    then have "extends_with ?P w
        (create_singles srv parent_id chunk (w1\<lparr>printed := printed w1 @ [(parent_id, nm, e2)]\<rparr>))"
      using rest by (rule extends_with_trans)
    then show ?thesis
      using g Inl by simp
  qed
qed

lemma extends_with_create_chunks:
  "extends_with (creates_only parent_id (\<Union>c \<in> set cs. set c)) w (create_chunks srv parent_id cs w)"
proof (induction cs arbitrary: w)
  case Nil
  show ?case by (simp add: extends_with_refl)
next
  case (Cons chunk cs)
  let ?P = "creates_only parent_id (\<Union>c \<in> set (chunk # cs). set c)"
  obtain r w1 where g: "gql_with_retry srv (CreateSubitemsBatch parent_id chunk) 5 w = (r, w1)"
    by (cases "gql_with_retry srv (CreateSubitemsBatch parent_id chunk) 5 w")
  have "?P (CreateSubitemsBatch parent_id chunk)"
    by (auto simp: creates_only_def)
  then have e1: "extends_with ?P w w1"
    using g by (rule extends_with_retry)
  have rest: "extends_with ?P w2 (create_chunks srv parent_id cs w2)" for w2
    by (rule extends_with_mono [OF Cons.IH]) (auto elim: creates_only_mono)
  show ?case
  proof (cases r)
    case (Inr d)
    from e1 have "extends_with ?P w (sleep (1 / 10) w1)"
      by (rule extends_with_sleep)
    then have "extends_with ?P w (create_chunks srv parent_id cs (sleep (1 / 10) w1))"
      using rest by (rule extends_with_trans)
    then show ?thesis
      using g Inr by simp
  next
    case (Inl e)
    have "extends_with ?P w1 (create_singles srv parent_id chunk w1)"
      by (rule extends_with_mono [OF extends_with_create_singles]) (auto elim: creates_only_mono)
    with e1 have "extends_with ?P w (create_singles srv parent_id chunk w1)"
      by (rule extends_with_trans)
    then have "extends_with ?P w (create_chunks srv parent_id cs (create_singles srv parent_id chunk w1))"
      using rest by (rule extends_with_trans)
    then show ?thesis
      using g Inl by simp
  qed
qed

lemma set_chunks: "(\<Union>c \<in> set (chunks n xs). set c) \<subseteq> set xs"
proof (induction n xs rule: chunks.induct)
  case (1 n xs)
  show ?case
  proof (cases "xs = [] \<or> n = 0")
    case True
    then show ?thesis by (simp add: chunks.simps [of n xs])
  next
    case False
    with 1 have "(\<Union>c \<in> set (chunks n (drop n xs)). set c) \<subseteq> set (drop n xs)"
      by simp
    also have "\<dots> \<subseteq> set xs"
      by (rule set_drop_subset)
    finally show ?thesis
      using False set_take_subset [of n xs] by (simp add: chunks.simps [of n xs])
  qed
qed

lemma extends_with_create_subitems:
  "extends_with (creates_only parent_id (set (clean_names_from 0 names))) w
     (create_subitems srv parent_id names w)"
proof (cases "clean_names_from 0 names = []")
  case True
  then show ?thesis by (simp add: create_subitems_def extends_with_refl)
next
  case False
  have "extends_with (creates_only parent_id (set (clean_names_from 0 names))) w
      (create_chunks srv parent_id (chunks 20 (clean_names_from 0 names)) w)"
    by (rule extends_with_mono [OF extends_with_create_chunks])
      (rule creates_only_mono, assumption, rule set_chunks)
  with False show ?thesis by (simp add: create_subitems_def)
qed

section \<open>Facts about \<open>strip\<close>\<close>

lemma rstrip_append: "\<exists>v. s = rstrip s @ v \<and> (\<forall>c \<in> set v. isspace c)"
proof -
  have "rev (takeWhile isspace (rev s) @ dropWhile isspace (rev s)) = rev (rev s)"
    by (simp only: takeWhile_dropWhile_id)
  then have "rev (dropWhile isspace (rev s)) @ rev (takeWhile isspace (rev s)) = s"
    by (simp only: rev_append rev_rev_ident)
  then have "s = rstrip s @ rev (takeWhile isspace (rev s))"
    by (simp add: rstrip_def)
  moreover have "\<forall>c \<in> set (rev (takeWhile isspace (rev s))). isspace c"
    by (auto dest: set_takeWhileD)
  ultimately show ?thesis by blast
qed

lemma rstrip_last: "rstrip s \<noteq> [] \<Longrightarrow> \<not> isspace (last (rstrip s))"
proof -
  assume "rstrip s \<noteq> []"
  then have ne: "dropWhile isspace (rev s) \<noteq> []"
    by (simp add: rstrip_def)
  then have "\<not> isspace (hd (dropWhile isspace (rev s)))"
    by (rule hd_dropWhile)
  with ne show ?thesis
    by (simp add: rstrip_def last_rev)
qed

lemma rstrip_id: "s = [] \<or> \<not> isspace (last s) \<Longrightarrow> rstrip s = s"
  by (cases s rule: rev_cases) (auto simp: rstrip_def)

lemma lstrip_id: "s = [] \<or> \<not> isspace (hd s) \<Longrightarrow> lstrip s = s"
  by (cases s) (auto simp: lstrip_def)

lemma lstrip_hd: "lstrip s \<noteq> [] \<Longrightarrow> \<not> isspace (hd (lstrip s))"
  unfolding lstrip_def by (rule hd_dropWhile)

lemma rstrip_hd: "rstrip s \<noteq> [] \<Longrightarrow> hd (rstrip s) = hd s"
proof -
  assume ne: "rstrip s \<noteq> []"
  from rstrip_append [of s] obtain v where "s = rstrip s @ v" by blast
  then have "hd s = hd (rstrip s @ v)" by simp
  with ne show ?thesis by simp
qed

lemma strip_ends:
  "strip s = [] \<or> (\<not> isspace (hd (strip s)) \<and> \<not> isspace (last (strip s)))"
proof (cases "strip s = []")
  case True
  then show ?thesis by simp
next
  case False
  then have ne: "rstrip (lstrip s) \<noteq> []"
    by (simp add: strip_def)
  then have "lstrip s \<noteq> []"
    by (auto simp: rstrip_def)
  then have "\<not> isspace (hd (lstrip s))"
    by (rule lstrip_hd)
  with rstrip_hd [OF ne] have "\<not> isspace (hd (strip s))"
    by (simp add: strip_def)
  moreover from rstrip_last [OF ne] have "\<not> isspace (last (strip s))"
    by (simp add: strip_def)
  ultimately show ?thesis by simp
qed

lemma strip_id:
  "s = [] \<or> (\<not> isspace (hd s) \<and> \<not> isspace (last s)) \<Longrightarrow> strip s = s"
proof -
  assume a: "s = [] \<or> (\<not> isspace (hd s) \<and> \<not> isspace (last s))"
  then have "lstrip s = s"
    by (auto intro: lstrip_id)
  moreover from a have "rstrip s = s"
    by (auto intro: rstrip_id)
  ultimately show ?thesis
    by (simp add: strip_def)
qed

lemma strip_strip: "strip (strip s) = strip s"
  by (rule strip_id) (rule strip_ends)

subsection \<open>The after-actions and the query of the child records\<close>

lemma extends_with_move_chunks:
  "move_chunks srv cs group_id w = (r, w') \<Longrightarrow>
   extends_with (\<lambda>q. \<exists>c. q = MoveItems c group_id) w w'"
proof (induction cs arbitrary: w)
  case Nil
  then show ?case by (simp add: extends_with_refl)
next
  case (Cons chunk cs)
  let ?P = "\<lambda>q. \<exists>c. q = MoveItems c group_id"
  obtain r1 w1 where g: "gql_with_retry srv (MoveItems chunk group_id) 5 w = (r1, w1)"
    by (cases "gql_with_retry srv (MoveItems chunk group_id) 5 w")
  have "?P (MoveItems chunk group_id)"
    by simp
  then have e1: "extends_with ?P w w1"
    using g by (rule extends_with_retry)
  show ?case
  proof (cases r1)
    case (Inl e)
    with g Cons.prems have "w' = w1" by simp
    with e1 show ?thesis by simp
  next
    case (Inr d)
    with g Cons.prems have "move_chunks srv cs group_id (sleep (1 / 10) w1) = (r, w')"
      by simp
    then have "extends_with ?P (sleep (1 / 10) w1) w'"
      by (rule Cons.IH)
    moreover from e1 have "extends_with ?P w (sleep (1 / 10) w1)"
      by (rule extends_with_sleep)
    ultimately show ?thesis
      by (rule extends_with_trans [rotated])
  qed
qed

lemma extends_with_move_items:
  "move_items srv ids group_id w = (r, w') \<Longrightarrow>
   extends_with (\<lambda>q. \<exists>c. q = MoveItems c group_id) w w'"
  by (cases "ids = []") (auto simp: move_items_def extends_with_refl dest: extends_with_move_chunks)

lemma extends_with_archive_chunks:
  "archive_chunks srv cs w = (r, w') \<Longrightarrow> extends_with (\<lambda>q. \<exists>c. q = ArchiveItems c) w w'"
proof (induction cs arbitrary: w)
  case Nil
  then show ?case by (simp add: extends_with_refl)
next
  case (Cons chunk cs)
  let ?P = "\<lambda>q. \<exists>c. q = ArchiveItems c"
  obtain r1 w1 where g: "gql_with_retry srv (ArchiveItems chunk) 5 w = (r1, w1)"
    by (cases "gql_with_retry srv (ArchiveItems chunk) 5 w")
  have "?P (ArchiveItems chunk)"
    by simp
  then have e1: "extends_with ?P w w1"
    using g by (rule extends_with_retry)
  show ?case
  proof (cases r1)
    case (Inl e)
    with g Cons.prems have "w' = w1" by simp
    with e1 show ?thesis by simp
  next
    case (Inr d)
    with g Cons.prems have "archive_chunks srv cs (sleep (1 / 10) w1) = (r, w')"
      by simp
    then have "extends_with ?P (sleep (1 / 10) w1) w'"
      by (rule Cons.IH)
    moreover from e1 have "extends_with ?P w (sleep (1 / 10) w1)"
      by (rule extends_with_sleep)
    ultimately show ?thesis
      by (rule extends_with_trans [rotated])
  qed
qed

lemma extends_with_archive_items:
  "archive_items srv ids w = (r, w') \<Longrightarrow> extends_with (\<lambda>q. \<exists>c. q = ArchiveItems c) w w'"
  by (cases "ids = []") (auto simp: archive_items_def extends_with_refl dest: extends_with_archive_chunks)

lemma extends_with_get_existing:
  "get_existing_subitem_names srv parent_id w = (r, w') \<Longrightarrow>
   extends_with (\<lambda>q. q = SubitemsQuery parent_id) w w'"
proof -
  assume a: "get_existing_subitem_names srv parent_id w = (r, w')"
  obtain r1 w1 where g: "gql srv (SubitemsQuery parent_id) w = (r1, w1)"
    by (cases "gql srv (SubitemsQuery parent_id) w")
  have "extends_with (\<lambda>q. q = SubitemsQuery parent_id) w w1"
    by (rule extends_with_gql [OF _ g]) simp
  moreover from a g have "w' = w1"
    by (auto simp: get_existing_subitem_names_def split: sum.splits payload.splits)
  ultimately show ?thesis by simp
qed

subsection \<open>One round of the loop over the groups\<close>

lemma process_group_short:
  "length (item_ids_oldest_first g) < 2 \<Longrightarrow> process_group cfg srv m g p w = (Inr p, w)"
  by (simp add: process_group_def)

lemma process_group_fetch_fails:
  "\<not> length (item_ids_oldest_first g) < 2 \<Longrightarrow>
   get_existing_subitem_names srv (hd (item_ids_oldest_first g)) w = (Inl e, w1) \<Longrightarrow>
   process_group cfg srv m g p w = (Inl e, w1)"
  by (simp add: process_group_def Let_def)

text \<open>The requests of the after-action that a configuration allows.\<close>

definition after_action_request :: "config \<Rightarrow> request \<Rightarrow> bool" where
  "after_action_request cfg q =
     (if AFTER_ACTION cfg = ''move'' \<and> MOVE_GROUP_ID cfg \<noteq> []
      then \<exists>c. q = MoveItems c (MOVE_GROUP_ID cfg)
      else AFTER_ACTION cfg = ''archive'' \<and> (\<exists>c. q = ArchiveItems c))"

lemma process_group_fetched:
  assumes n2: "\<not> length (item_ids_oldest_first g) < 2"
    and ge: "get_existing_subitem_names srv (hd (item_ids_oldest_first g)) w = (Inr existing, w1)"
    and pg: "process_group cfg srv m g p w = (r, w')"
  shows "extends_with (after_action_request cfg)
           (if pending_of m existing (py_take (MAX_CHILDREN cfg) (tl (item_ids_oldest_first g))) \<noteq> []
            then create_subitems srv (hd (item_ids_oldest_first g))
                   (map snd (pending_of m existing
                      (py_take (MAX_CHILDREN cfg) (tl (item_ids_oldest_first g))))) w1
            else w1) w'"
    and "r = Inr p' \<Longrightarrow>
           total_created p' = total_created p
             + int (length (pending_of m existing
                     (py_take (MAX_CHILDREN cfg) (tl (item_ids_oldest_first g)))))"
    and "r = Inr p' \<Longrightarrow> \<not> (AFTER_ACTION cfg = ''move'' \<and> MOVE_GROUP_ID cfg \<noteq> []) \<Longrightarrow>
           moved p' = moved p \<and> moved_items (summary p') = moved_items (summary p)"
    and "r = Inr p' \<Longrightarrow> \<not> (AFTER_ACTION cfg = ''move'' \<and> MOVE_GROUP_ID cfg \<noteq> []) \<Longrightarrow>
           AFTER_ACTION cfg \<noteq> ''archive'' \<Longrightarrow>
           w' = sleep (1 / 20)
             (if pending_of m existing (py_take (MAX_CHILDREN cfg) (tl (item_ids_oldest_first g))) \<noteq> []
              then create_subitems srv (hd (item_ids_oldest_first g))
                     (map snd (pending_of m existing
                        (py_take (MAX_CHILDREN cfg) (tl (item_ids_oldest_first g))))) w1
              else w1)"
proof -
  let ?children = "py_take (MAX_CHILDREN cfg) (tl (item_ids_oldest_first g))"
  let ?pending = "pending_of m existing ?children"
  let ?w2 = "if ?pending \<noteq> []
             then create_subitems srv (hd (item_ids_oldest_first g)) (map snd ?pending) w1 else w1"
  let ?existing2 = "if ?pending \<noteq> [] then existing \<union> set (map snd ?pending) else existing"
  obtain ap where ap: "already_present m ?existing2 ?children = ap"
    by simp
  show "extends_with (after_action_request cfg) ?w2 w'"
  proof (cases ap)
    case (Inl e)
    with n2 ge pg ap have "w' = ?w2"
      by (auto simp: process_group_def Let_def split: if_splits)
    then show ?thesis by (simp only: extends_with_refl)
  next
    case (Inr present)
    let ?rep = "map fst ?pending @ present"
    show ?thesis
    proof (cases "?rep \<noteq> [] \<and> AFTER_ACTION cfg = ''move'' \<and> MOVE_GROUP_ID cfg \<noteq> []")
      case True
      obtain mr w3 where mv: "move_items srv ?rep (MOVE_GROUP_ID cfg) ?w2 = (mr, w3)"
        by (cases "move_items srv ?rep (MOVE_GROUP_ID cfg) ?w2")
      then have "extends_with (\<lambda>q. \<exists>c. q = MoveItems c (MOVE_GROUP_ID cfg)) ?w2 w3"
        by (rule extends_with_move_items)
      then have e: "extends_with (after_action_request cfg) ?w2 w3"
        by (rule extends_with_mono) (simp add: after_action_request_def True)
      from n2 ge pg ap Inr True mv have "w' = w3 \<or> w' = sleep (1 / 20) w3"
        by (cases mr) (auto simp: process_group_def Let_def split: if_splits)
      with e show ?thesis
        by (auto intro: extends_with_sleep)
    next
      case nm: False
      show ?thesis
      proof (cases "?rep \<noteq> [] \<and> AFTER_ACTION cfg = ''archive''")
        case True
        obtain mr w3 where mv: "archive_items srv ?rep ?w2 = (mr, w3)"
          by (cases "archive_items srv ?rep ?w2")
        then have "extends_with (\<lambda>q. \<exists>c. q = ArchiveItems c) ?w2 w3"
          by (rule extends_with_archive_items)
        then have e: "extends_with (after_action_request cfg) ?w2 w3"
          by (rule extends_with_mono) (use nm True in \<open>auto simp: after_action_request_def\<close>)
        from n2 ge pg ap Inr True nm mv have "w' = w3 \<or> w' = sleep (1 / 20) w3"
          by (cases mr) (auto simp: process_group_def Let_def split: if_splits)
        with e show ?thesis
          by (auto intro: extends_with_sleep)
      next
        case False
        with n2 ge pg ap Inr nm have "w' = sleep (1 / 20) ?w2"
          by (auto simp: process_group_def Let_def split: if_splits)
        then show ?thesis
          by (simp only: extends_with_sleep extends_with_refl)
      qed
    qed
  qed
  show "total_created p' = total_created p + int (length ?pending)" if "r = Inr p'"
    using that n2 ge pg ap
    by (cases ap) (auto simp: process_group_def Let_def split: option.splits prod.splits if_splits)
  show "moved p' = moved p \<and> moved_items (summary p') = moved_items (summary p)"
    if "r = Inr p'" "\<not> (AFTER_ACTION cfg = ''move'' \<and> MOVE_GROUP_ID cfg \<noteq> [])"
    using that n2 ge pg ap
    by (cases ap) (auto simp: process_group_def Let_def split: option.splits prod.splits if_splits)
  show "w' = sleep (1 / 20) ?w2"
    if "r = Inr p'" "\<not> (AFTER_ACTION cfg = ''move'' \<and> MOVE_GROUP_ID cfg \<noteq> [])"
      "AFTER_ACTION cfg \<noteq> ''archive''"
    using that n2 ge pg ap
    by (cases ap) (auto simp: process_group_def Let_def split: if_splits)
qed

lemma sanitize_name_stripped:
  "nm \<noteq> [] \<Longrightarrow> strip nm = nm \<Longrightarrow> sanitize_name (Some nm) fb = take 255 nm"
  by (simp add: sanitize_name_def Let_def)

lemma clean_names_from_stripped:
  "\<forall>nm \<in> set names. nm \<noteq> [] \<and> strip nm = nm \<Longrightarrow>
   clean_names_from i names = map (take 255) names"
  by (induction names arbitrary: i) (simp_all add: sanitize_name_stripped Let_def)

lemma pending_of_names:
  "(cid, nm) \<in> set (pending_of m existing children) \<Longrightarrow>
   nm \<noteq> [] \<and> nm \<notin> existing \<and> strip nm = nm \<and> cid \<in> set children"
  by (auto simp: pending_of_def strip_strip)

section \<open>The counters of the run summary\<close>

lemma length_py_take: "0 \<le> n \<Longrightarrow> int (length (py_take n xs)) \<le> n"
  by (simp add: py_take_def)

lemma select_groups_bounded:
  "select_groups cfg ext grouped_exact items = Inr groups \<Longrightarrow> 0 \<le> MAX_GROUPS cfg \<Longrightarrow>
   int (length groups) \<le> MAX_GROUPS cfg"
  by (auto simp: select_groups_def hybrid_groups_def Let_def length_py_take
      split: if_splits sum.splits)

lemma main_returns:
  assumes "main cfg ext srv items w = (Inr sm, w')"
  shows "\<exists>groups p.
      select_groups cfg ext (fst (group_items (parse_ts ext) items)) items = Inr groups
      \<and> process_groups cfg srv (snd (group_items (parse_ts ext) items)) groups initial_progress w
          = (Inr p, w')
      \<and> sm = (summary p)\<lparr>processed_groups := int (length groups),
                           created_subitems := total_created p,
                           moved_originals := moved p,
                           archived_originals := archived p\<rparr>"
  using assms
  by (auto simp: main_def Let_def split: prod.splits sum.splits option.splits if_splits)

text \<open>
  Claim C9. When \<open>main\<close> returns its summary, \<open>processed_groups\<close> is the number of the
  groups selected, which is at most \<open>MAX_GROUPS\<close> (for \<open>MAX_GROUPS\<close> not negative), whether
  or not a group was consolidated: a group with fewer than two member ids is counted too,
  although its round sends nothing and changes nothing.
\<close>

theorem processed_groups_counts_selected:
  assumes "main cfg ext srv items w = (Inr sm, w')"
  shows "(\<exists>groups.
            select_groups cfg ext (fst (group_items (parse_ts ext) items)) items = Inr groups
            \<and> processed_groups sm = int (length groups)
            \<and> (0 \<le> MAX_GROUPS cfg \<longrightarrow> processed_groups sm \<le> MAX_GROUPS cfg))
         \<and> (\<forall>g p w0. length (item_ids_oldest_first g) < 2 \<longrightarrow>
               process_group cfg srv (snd (group_items (parse_ts ext) items)) g p w0 = (Inr p, w0))"
proof -
  from main_returns [OF assms] obtain groups and p :: progress where
    s: "select_groups cfg ext (fst (group_items (parse_ts ext) items)) items = Inr groups"
    and sm: "sm = (summary p)\<lparr>processed_groups := int (length groups),
                           created_subitems := total_created p,
                           moved_originals := moved p,
                           archived_originals := archived p\<rparr>"
    by blast
  from sm have n: "processed_groups sm = int (length groups)"
    by simp
  moreover have "0 \<le> MAX_GROUPS cfg \<longrightarrow> processed_groups sm \<le> MAX_GROUPS cfg"
    using select_groups_bounded [OF s] n by simp
  ultimately show ?thesis
    using s by (auto simp: process_group_short)
qed

text \<open>With \<open>MIN_COUNT = 1\<close> a single item is a group of its own.\<close>

definition one_item :: "raw_item list" where
  "one_item =
     [\<lparr>item_id = ''7'', item_name = Some ''Invoice'', created_at = None, item_group = None\<rparr>]"

lemma one_item_run:
  "main (example_config\<lparr>GROUPING := ''exact'', MIN_COUNT := 1\<rparr>) no_api_key always_429 one_item
     empty_world =
   (Inr \<lparr>processed_groups = 1, created_subitems = 0, moved_originals = 0,
         archived_originals = 0, combined_items = [], moved_items = [], archived_items = []\<rparr>,
    empty_world)"
  by code_simp

theorem processed_groups_counts_selected_witness:
  "main (example_config\<lparr>GROUPING := ''exact'', MIN_COUNT := 1\<rparr>) no_api_key always_429 one_item
     empty_world =
   (Inr \<lparr>processed_groups = 1, created_subitems = 0, moved_originals = 0,
         archived_originals = 0, combined_items = [], moved_items = [], archived_items = []\<rparr>,
    empty_world)
   \<and> select_groups (example_config\<lparr>GROUPING := ''exact'', MIN_COUNT := 1\<rparr>) no_api_key
         (fst (group_items (parse_ts no_api_key) one_item)) one_item =
       Inr [\<lparr>subject_norm = ''invoice'', item_ids_oldest_first = [''7''], count = 1\<rparr>]
   \<and> calls empty_world = []"
proof -
  have sel: "select_groups (example_config\<lparr>GROUPING := ''exact'', MIN_COUNT := 1\<rparr>) no_api_key
         (fst (group_items (parse_ts no_api_key) one_item)) one_item =
       Inr [\<lparr>subject_norm = ''invoice'', item_ids_oldest_first = [''7''], count = 1\<rparr>]"
    by code_simp
  from processed_groups_counts_selected [OF one_item_run] sel one_item_run
  show ?thesis
    by (simp add: empty_world_def)
qed







text \<open>A server that accepts every request and reports no child record.\<close>

definition accepting :: server where
  "accepting hist q = Inr (ParentSubitems [])"



text \<open>
  Claim C8. \<open>created_subitems\<close> counts attempts. A round past the query of the existing
  child records adds the number of pending names to \<open>total_created\<close>, whatever the server
  answers to the requests of \<open>create_subitems\<close>, which returns nothing to the loop; a round
  of a group with fewer than two ids adds nothing; and the summary carries the total.
\<close>

theorem created_subitems_counts_attempts:
  "(\<forall>m g p w0 existing w1 p' w'.
      \<not> length (item_ids_oldest_first g) < 2 \<longrightarrow>
      get_existing_subitem_names srv (hd (item_ids_oldest_first g)) w0 = (Inr existing, w1) \<longrightarrow>
      process_group cfg srv m g p w0 = (Inr p', w') \<longrightarrow>
      total_created p' = total_created p
        + int (length (pending_of m existing
                 (py_take (MAX_CHILDREN cfg) (tl (item_ids_oldest_first g))))))
   \<and> (\<forall>m g p w0. length (item_ids_oldest_first g) < 2 \<longrightarrow>
          process_group cfg srv m g p w0 = (Inr p, w0))
   \<and> (\<forall>sm w'. main cfg ext srv items w = (Inr sm, w') \<longrightarrow>
          (\<exists>groups p.
             select_groups cfg ext (fst (group_items (parse_ts ext) items)) items = Inr groups
             \<and> process_groups cfg srv (snd (group_items (parse_ts ext) items)) groups
                  initial_progress w = (Inr p, w')
             \<and> created_subitems sm = total_created p))"
proof (intro conjI allI impI)
  fix m g p w0 existing w1 p' w'
  assume "\<not> length (item_ids_oldest_first g) < 2"
    and "get_existing_subitem_names srv (hd (item_ids_oldest_first g)) w0 = (Inr existing, w1)"
    and "process_group cfg srv m g p w0 = (Inr p', w')"
  from process_group_fetched(2) [OF this refl]
  show "total_created p' = total_created p
        + int (length (pending_of m existing
                 (py_take (MAX_CHILDREN cfg) (tl (item_ids_oldest_first g)))))" .
next
  fix m p w0 and g :: group
  assume "length (item_ids_oldest_first g) < 2"
  then show "process_group cfg srv m g p w0 = (Inr p, w0)"
    by (rule process_group_short)
next
  fix sm w'
  assume "main cfg ext srv items w = (Inr sm, w')"
  from main_returns [OF this]
  show "\<exists>groups p.
             select_groups cfg ext (fst (group_items (parse_ts ext) items)) items = Inr groups
             \<and> process_groups cfg srv (snd (group_items (parse_ts ext) items)) groups
                  initial_progress w = (Inr p, w')
             \<and> created_subitems sm = total_created p"
    by auto
qed

text \<open>A server that reports no child record and refuses every other request.\<close>

definition refusing :: server where
  "refusing hist q =
     (case q of
        SubitemsQuery _ \<Rightarrow> Inr (ParentSubitems [])
      | _ \<Rightarrow> Inl ''GraphQL errors: invalid item name'')"

lemma refused_run:
  "main example_config no_api_key refusing site_visit_items empty_world =
   (Inr \<lparr>processed_groups = 1, created_subitems = 1, moved_originals = 0,
         archived_originals = 0,
         combined_items = [(Some ''RE: Site Visit Request'',
           [Some ''Site Visit Request (Urgent)'', Some ''Site Visit Request (Urgent)''])],
         moved_items = [], archived_items = []\<rparr>,
    \<lparr>calls = [SubitemsQuery ''1'',
              CreateSubitemsBatch ''1'' [''Site Visit Request (Urgent)''],
              CreateSubitem ''1'' ''Site Visit Request (Urgent)''],
     slept = [1 / 20],
     printed = [(''1'', ''Site Visit Request (Urgent)'', ''GraphQL errors: invalid item name'')]\<rparr>)"
  by code_simp

theorem created_subitems_counts_attempts_witness:
  "main example_config no_api_key refusing site_visit_items empty_world =
   (Inr \<lparr>processed_groups = 1, created_subitems = 1, moved_originals = 0,
         archived_originals = 0,
         combined_items = [(Some ''RE: Site Visit Request'',
           [Some ''Site Visit Request (Urgent)'', Some ''Site Visit Request (Urgent)''])],
         moved_items = [], archived_items = []\<rparr>,
    \<lparr>calls = [SubitemsQuery ''1'',
              CreateSubitemsBatch ''1'' [''Site Visit Request (Urgent)''],
              CreateSubitem ''1'' ''Site Visit Request (Urgent)''],
     slept = [1 / 20],
     printed = [(''1'', ''Site Visit Request (Urgent)'', ''GraphQL errors: invalid item name'')]\<rparr>)
   \<and> (\<exists>groups p.
         select_groups example_config no_api_key
           (fst (group_items (parse_ts no_api_key) site_visit_items)) site_visit_items = Inr groups
         \<and> fst (process_groups example_config refusing
                  (snd (group_items (parse_ts no_api_key) site_visit_items)) groups
                  initial_progress empty_world) = Inr p
         \<and> total_created p = 1)"
  using created_subitems_counts_attempts [of refusing example_config no_api_key site_visit_items
      empty_world] refused_run
  by auto

section \<open>The names of the child records a round creates\<close>

text \<open>The names of the child records that a request asks the server to create.\<close>

definition created_names :: "request \<Rightarrow> string list" where
  "created_names q =
     (case q of
        CreateSubitemsBatch _ ns \<Rightarrow> ns
      | CreateSubitem _ n \<Rightarrow> [n]
      | _ \<Rightarrow> [])"

lemma extends_with_new:
  "extends_with P w w' \<Longrightarrow> \<forall>q \<in> set (drop (length (calls w)) (calls w')). P q"
  by (auto simp: extends_with_def)

lemma process_group_created_names:
  assumes pg: "process_group cfg srv m g p w = (r, w')"
  shows "extends_with
     (\<lambda>q. \<forall>n \<in> set (created_names q).
        \<exists>existing w1 cid nm.
          get_existing_subitem_names srv (hd (item_ids_oldest_first g)) w = (Inr existing, w1)
          \<and> (cid, nm) \<in> set (pending_of m existing
                 (py_take (MAX_CHILDREN cfg) (tl (item_ids_oldest_first g))))
          \<and> n = take 255 nm) w w'"
    (is "extends_with ?P w w'")
proof (cases "length (item_ids_oldest_first g) < 2")
  case True
  with pg have "w' = w"
    by (simp add: process_group_short)
  then show ?thesis
    by (simp add: extends_with_refl)
next
  case n2: False
  let ?parent = "hd (item_ids_oldest_first g)"
  obtain r0 w1 where ge: "get_existing_subitem_names srv ?parent w = (r0, w1)"
    by (cases "get_existing_subitem_names srv ?parent w")
  from extends_with_get_existing [OF ge] have e1: "extends_with ?P w w1"
    by (rule extends_with_mono) (simp add: created_names_def)
  show ?thesis
  proof (cases r0)
    case (Inl e)
    with n2 ge pg have "w' = w1"
      by (simp add: process_group_fetch_fails)
    with e1 show ?thesis by simp
  next
    case (Inr existing)
    let ?pending = "pending_of m existing (py_take (MAX_CHILDREN cfg) (tl (item_ids_oldest_first g)))"
    let ?w2 = "if ?pending \<noteq> [] then create_subitems srv ?parent (map snd ?pending) w1 else w1"
    note f = process_group_fetched [OF n2 ge [unfolded Inr] pg]
    have "\<forall>nm \<in> set (map snd ?pending). nm \<noteq> [] \<and> strip nm = nm"
      by (auto dest: pending_of_names)
    then have cn: "clean_names_from 0 (map snd ?pending) = map (take 255) (map snd ?pending)"
      by (rule clean_names_from_stripped)
    have "extends_with ?P w1 (create_subitems srv ?parent (map snd ?pending) w1)"
    proof (rule extends_with_mono [OF extends_with_create_subitems])
      fix q
      assume c: "creates_only ?parent (set (clean_names_from 0 (map snd ?pending))) q"
      show "?P q"
      proof
        fix n
        assume "n \<in> set (created_names q)"
        with c have "n \<in> set (clean_names_from 0 (map snd ?pending))"
          by (auto simp: creates_only_def created_names_def split: request.splits)
        with cn obtain cid nm where "(cid, nm) \<in> set ?pending" "n = take 255 nm"
          by auto
        with ge Inr show "\<exists>existing w1 cid nm.
          get_existing_subitem_names srv ?parent w = (Inr existing, w1)
          \<and> (cid, nm) \<in> set (pending_of m existing
                 (py_take (MAX_CHILDREN cfg) (tl (item_ids_oldest_first g))))
          \<and> n = take 255 nm"
          by blast
      qed
    qed
    then have "extends_with ?P w1 ?w2"
      by (simp add: extends_with_refl)
    with e1 have e2: "extends_with ?P w ?w2"
      by (rule extends_with_trans)
    from f(1) have "extends_with ?P ?w2 w'"
      by (rule extends_with_mono)
        (auto simp: after_action_request_def created_names_def split: if_splits)
    with e2 show ?thesis
      by (rule extends_with_trans)
  qed
qed

text \<open>
  Claim C1, as amended. In the round of a group, a child record is created only for a
  pending child: one of the children whose display name, stripped, is not empty and not
  in the set of existing names that the round has just fetched. The record is created
  under that name cut to its first 255 characters. So a record created for a name of at
  most 255 characters has a name that is not in the fetched set.
\<close>

theorem created_names_are_pending:
  assumes "process_group cfg srv m g p w = (r, w')"
  shows "\<forall>q \<in> set (drop (length (calls w)) (calls w')). \<forall>n \<in> set (created_names q).
     \<exists>existing w1 cid nm.
       get_existing_subitem_names srv (hd (item_ids_oldest_first g)) w = (Inr existing, w1)
       \<and> cid \<in> set (py_take (MAX_CHILDREN cfg) (tl (item_ids_oldest_first g)))
       \<and> nm = strip (case display_name m cid of None \<Rightarrow> [] | Some x \<Rightarrow> x)
       \<and> nm \<noteq> [] \<and> nm \<notin> existing
       \<and> n = take 255 nm
       \<and> (length nm \<le> 255 \<longrightarrow> n \<notin> existing)"
proof (intro ballI)
  fix q n
  assume "q \<in> set (drop (length (calls w)) (calls w'))" and n: "n \<in> set (created_names q)"
  with extends_with_new [OF process_group_created_names [OF assms]] n
  obtain existing w1 cid nm where
    ge: "get_existing_subitem_names srv (hd (item_ids_oldest_first g)) w = (Inr existing, w1)"
    and pe: "(cid, nm) \<in> set (pending_of m existing
                 (py_take (MAX_CHILDREN cfg) (tl (item_ids_oldest_first g))))"
    and t: "n = take 255 nm"
    by blast
  from pe have "cid \<in> set (py_take (MAX_CHILDREN cfg) (tl (item_ids_oldest_first g)))"
    and "nm = strip (case display_name m cid of None \<Rightarrow> [] | Some x \<Rightarrow> x)"
    and "nm \<noteq> []" and ne: "nm \<notin> existing"
    by (auto simp: pending_of_def)
  moreover from t ne have "length nm \<le> 255 \<longrightarrow> n \<notin> existing"
    by simp
  ultimately show "\<exists>existing w1 cid nm.
       get_existing_subitem_names srv (hd (item_ids_oldest_first g)) w = (Inr existing, w1)
       \<and> cid \<in> set (py_take (MAX_CHILDREN cfg) (tl (item_ids_oldest_first g)))
       \<and> nm = strip (case display_name m cid of None \<Rightarrow> [] | Some x \<Rightarrow> x)
       \<and> nm \<noteq> [] \<and> nm \<notin> existing
       \<and> n = take 255 nm
       \<and> (length nm \<le> 255 \<longrightarrow> n \<notin> existing)"
    using ge t by blast
qed

text \<open>
  A group of two items with one name of 256 characters, and a parent that already has a
  child record under the first 255 of them, as an earlier run of the same program leaves
  it.
\<close>

definition long_names :: "string \<rightharpoonup> string option" where
  "long_names = [''1'' \<mapsto> Some (replicate 256 CHR ''a''), ''2'' \<mapsto> Some (replicate 256 CHR ''a'')]"

definition long_name_group :: group where
  "long_name_group =
     \<lparr>subject_norm = replicate 256 CHR ''a'', item_ids_oldest_first = [''1'', ''2''], count = 2\<rparr>"

definition has_cut_child :: server where
  "has_cut_child hist q = Inr (ParentSubitems [Some (replicate 255 CHR ''a'')])"

theorem created_names_are_pending_counterexample:
  "fst (get_existing_subitem_names has_cut_child ''1'' empty_world) = Inr {replicate 255 CHR ''a''}
   \<and> calls (snd (process_group example_config has_cut_child long_names long_name_group
                    initial_progress empty_world)) =
       [SubitemsQuery ''1'', CreateSubitemsBatch ''1'' [replicate 255 CHR ''a'']]"
  by code_simp

text \<open>The round of the group of items 1 and 2 above, on a parent without child records.\<close>

lemma site_visit_round:
  "process_group example_config accepting (snd (group_items (\<lambda>_. 0) site_visit_items))
     \<lparr>subject_norm = ''site visit request'', item_ids_oldest_first = [''1'', ''2''], count = 2\<rparr>
     initial_progress empty_world =
   (Inr \<lparr>summary =
          \<lparr>processed_groups = 0, created_subitems = 0, moved_originals = 0,
           archived_originals = 0,
           combined_items = [(Some ''RE: Site Visit Request'',
             [Some ''Site Visit Request (Urgent)'', Some ''Site Visit Request (Urgent)''])],
           moved_items = [], archived_items = []\<rparr>,
         total_created = 1, moved = 0, archived = 0\<rparr>,
    \<lparr>calls = [SubitemsQuery ''1'',
              CreateSubitemsBatch ''1'' [''Site Visit Request (Urgent)'']],
     slept = [1 / 10, 1 / 20], printed = []\<rparr>)"
  by code_simp

theorem created_names_are_pending_witness:
  "calls (snd (process_group example_config accepting (snd (group_items (\<lambda>_. 0) site_visit_items))
     \<lparr>subject_norm = ''site visit request'', item_ids_oldest_first = [''1'', ''2''], count = 2\<rparr>
     initial_progress empty_world)) =
     [SubitemsQuery ''1'', CreateSubitemsBatch ''1'' [''Site Visit Request (Urgent)'']]
   \<and> (\<exists>existing w1 cid nm.
         get_existing_subitem_names accepting ''1'' empty_world = (Inr existing, w1)
         \<and> cid \<in> set [''2'']
         \<and> nm \<noteq> [] \<and> nm \<notin> existing
         \<and> ''Site Visit Request (Urgent)'' = take 255 nm
         \<and> (length nm \<le> 255 \<longrightarrow> ''Site Visit Request (Urgent)'' \<notin> existing))"
proof -
  have "CreateSubitemsBatch ''1'' [''Site Visit Request (Urgent)'']
      \<in> set (drop (length (calls empty_world))
            [SubitemsQuery ''1'', CreateSubitemsBatch ''1'' [''Site Visit Request (Urgent)'']])"
    by (simp add: empty_world_def)
  moreover have "''Site Visit Request (Urgent)''
      \<in> set (created_names (CreateSubitemsBatch ''1'' [''Site Visit Request (Urgent)'']))"
    by (simp add: created_names_def)
  moreover note created_names_are_pending [OF site_visit_round]
  ultimately have "\<exists>existing w1 cid nm.
       get_existing_subitem_names accepting (hd [''1'', ''2'']) empty_world = (Inr existing, w1)
       \<and> cid \<in> set (py_take (MAX_CHILDREN example_config) (tl [''1'', ''2'']))
       \<and> nm = strip (case display_name (snd (group_items (\<lambda>_. 0) site_visit_items)) cid of
                       None \<Rightarrow> [] | Some x \<Rightarrow> x)
       \<and> nm \<noteq> [] \<and> nm \<notin> existing
       \<and> ''Site Visit Request (Urgent)'' = take 255 nm
       \<and> (length nm \<le> 255 \<longrightarrow> ''Site Visit Request (Urgent)'' \<notin> existing)"
    by (simp del: One_nat_def)
  then show ?thesis
    unfolding site_visit_round by (auto simp: py_take_def example_config_def)
qed

section \<open>Facts about the patterns\<close>

subsection \<open>Lower case\<close>

lemma of_char_lower_char:
  "(of_char (lower_char c) :: nat) =
     (if (65 \<le> (of_char c :: nat) \<and> (of_char c :: nat) \<le> 90)
         \<or> (192 \<le> (of_char c :: nat) \<and> (of_char c :: nat) \<le> 222 \<and> (of_char c :: nat) \<noteq> 215)
      then of_char c + 32 else of_char c)"
  by (simp add: lower_char_def Let_def)

lemma isspace_lower_char [simp]: "isspace (lower_char c) = isspace c"
  by (simp add: isspace_def of_char_lower_char)

lemma lower_char_idem [simp]: "lower_char (lower_char c) = lower_char c"
proof -
  have "(of_char (lower_char (lower_char c)) :: nat) = of_char (lower_char c)"
    by (simp add: of_char_lower_char)
  then show ?thesis
    by (simp only: of_char_eq_iff)
qed

lemma lower_char_eq_iff:
  assumes "\<not> (97 \<le> (of_char d :: nat) \<and> (of_char d :: nat) \<le> 122)"
    and "\<not> (224 \<le> (of_char d :: nat) \<and> (of_char d :: nat) \<le> 254)"
    and "\<not> (65 \<le> (of_char d :: nat) \<and> (of_char d :: nat) \<le> 90)"
    and "\<not> (192 \<le> (of_char d :: nat) \<and> (of_char d :: nat) \<le> 222)"
  shows "lower_char c = d \<longleftrightarrow> c = d"
proof -
  have "lower_char c = d \<longleftrightarrow> (of_char (lower_char c) :: nat) = of_char d"
    by (simp only: of_char_eq_iff)
  also have "\<dots> \<longleftrightarrow> (of_char c :: nat) = of_char d"
    using assms by (auto simp: of_char_lower_char)
  also have "\<dots> \<longleftrightarrow> c = d"
    by (simp only: of_char_eq_iff)
  finally show ?thesis .
qed

lemma lower_char_punct [simp]:
  "lower_char c = CHR ''['' \<longleftrightarrow> c = CHR ''[''"
  "lower_char c = CHR '']'' \<longleftrightarrow> c = CHR '']''"
  "lower_char c = CHR '':'' \<longleftrightarrow> c = CHR '':''"
  "lower_char c = CHR '' '' \<longleftrightarrow> c = CHR '' ''"
  by (rule lower_char_eq_iff; simp)+

lemma not_isspace_punct [simp]:
  "\<not> isspace CHR ''[''" "\<not> isspace CHR '']''" "\<not> isspace CHR '':''" "isspace CHR '' ''"
  by (simp_all add: isspace_def)


subsection \<open>The beginning of a string\<close>


definition prefix_here :: "string \<Rightarrow> bool" where
  "prefix_here s = (prefix_match s \<noteq> None)"


lemma prefix_sub_id: "prefix_sub s = s \<longleftrightarrow> \<not> prefix_here s"
proof (cases "prefix_match s")
  case None
  then show ?thesis by (simp add: prefix_sub_def prefix_here_def)
next
  case (Some r)
  then obtain r0 where g: "prefix_group (dropWhile isspace s) = Some r0"
    and r: "r = prefix_groups r0"
    by (auto simp: prefix_match_def split: option.splits)
  have "length r \<le> length r0"
    unfolding r by (rule length_prefix_groups_le)
  also from g have "\<dots> < length (dropWhile isspace s)"
    by (rule prefix_group_shorter)
  also have "\<dots> \<le> length s"
    by (rule length_dropWhile_le)
  finally have "r \<noteq> s" by auto
  with Some show ?thesis
    by (simp add: prefix_here_def prefix_sub_def)
qed


definition token_here :: "string \<Rightarrow> string \<Rightarrow> bool" where
  "token_here t s =
     (length t \<le> length s \<and> lower (take (length t) s) = t \<and>
      (case dropWhile isspace (drop (length t) s) of
         [] \<Rightarrow> False
       | c # _ \<Rightarrow> c = CHR '':'' \<or> c = CHR '']''))"

lemma token_match_iff: "token_match t s \<noteq> None \<longleftrightarrow> token_here t s"
proof (cases "dropWhile isspace (drop (length t) s)")
  case Nil
  then show ?thesis
    by (simp only: token_match_def token_here_def list.case) simp
next
  case (Cons c after)
  then show ?thesis
    by (simp only: token_match_def token_here_def list.case) auto
qed

lemma first_token_match_iff:
  "first_token_match ts s \<noteq> None \<longleftrightarrow> (\<exists>t \<in> set ts. token_here t s)"
proof (induction ts)
  case Nil
  show ?case by simp
next
  case (Cons t ts)
  show ?case
  proof (cases "token_match t s")
    case None
    then have "\<not> token_here t s"
      using token_match_iff [of t s] by simp
    with None Cons show ?thesis by simp
  next
    case (Some r)
    then have "token_here t s"
      using token_match_iff [of t s] by simp
    with Some show ?thesis by auto
  qed
qed

lemma prefix_here_iff:
  "prefix_here s \<longleftrightarrow> (\<exists>t \<in> set prefix_tokens. token_here t (dropWhile isspace s))"
proof -
  have "prefix_here s \<longleftrightarrow> prefix_group (dropWhile isspace s) \<noteq> None"
    by (simp add: prefix_here_def prefix_match_def split: option.splits)
  then show ?thesis
    by (simp only: prefix_group_def first_token_match_iff)
qed

lemma dropWhile_append_ne:
  "dropWhile P xs \<noteq> [] \<Longrightarrow> dropWhile P (xs @ ys) = dropWhile P xs @ ys"
  by (auto simp: dropWhile_append)




lemma token_here_append: "token_here t xs \<Longrightarrow> token_here t (xs @ ys)"
proof -
  assume t: "token_here t xs"
  then have le: "length t \<le> length xs" and lw: "lower (take (length t) xs) = t"
    by (simp_all add: token_here_def)
  from t obtain c after where d: "dropWhile isspace (drop (length t) xs) = c # after"
    by (cases "dropWhile isspace (drop (length t) xs)") (simp_all add: token_here_def)
  with t have c: "c = CHR '':'' \<or> c = CHR '']''"
    by (simp add: token_here_def)
  from le have "drop (length t) (xs @ ys) = drop (length t) xs @ ys"
    by simp
  with d have "dropWhile isspace (drop (length t) (xs @ ys)) = c # (after @ ys)"
    by (simp only: dropWhile_append_ne [of isspace "drop (length t) xs" ys] list.distinct
        not_False_eq_True append_Cons)
  moreover from le have "take (length t) (xs @ ys) = take (length t) xs"
    by simp
  ultimately show ?thesis
    using le lw c by (simp add: token_here_def)
qed

lemma prefix_here_append: "prefix_here xs \<Longrightarrow> prefix_here (xs @ ys)"
proof -
  assume "prefix_here xs"
  then obtain t where t: "t \<in> set prefix_tokens" and h: "token_here t (dropWhile isspace xs)"
    by (auto simp: prefix_here_iff)
  from h have "dropWhile isspace xs \<noteq> []"
    by (cases "dropWhile isspace xs") (simp_all add: token_here_def)
  then have "dropWhile isspace (xs @ ys) = dropWhile isspace xs @ ys"
    by (rule dropWhile_append_ne)
  with token_here_append [OF h, of ys] have "token_here t (dropWhile isspace (xs @ ys))"
    by simp
  with t show ?thesis
    by (auto simp: prefix_here_iff)
qed

lemma prefix_here_lstrip: "prefix_here (dropWhile isspace s) = prefix_here s"
  by (simp only: prefix_here_iff dropWhile_idem)

lemma isspace_lower_char_comp: "isspace \<circ> lower_char = isspace"
  by (rule ext) simp


lemma dropWhile_isspace_lower: "dropWhile isspace (lower s) = lower (dropWhile isspace s)"
  by (simp add: lower_def dropWhile_map isspace_lower_char_comp)


lemma lower_lower: "lower (lower s) = lower s"
  by (simp add: lower_def)

lemma token_here_lower: "token_here t (lower s) = token_here t s"
proof -
  have "lower (take (length t) (lower s)) = lower (take (length t) s)"
    by (simp add: lower_def take_map)
  moreover have "dropWhile isspace (drop (length t) (lower s))
      = map lower_char (dropWhile isspace (drop (length t) s))"
    by (simp add: lower_def drop_map dropWhile_map isspace_lower_char_comp)
  moreover have "length (lower s) = length s"
    by (simp add: lower_def)
  ultimately show ?thesis
    by (cases "dropWhile isspace (drop (length t) s)")
      (simp_all add: token_here_def del: dropWhile_eq_Nil_conv)
qed

lemma prefix_here_lower: "prefix_here (lower s) = prefix_here s"
  by (simp only: prefix_here_iff dropWhile_isspace_lower token_here_lower)

subsection \<open>Runs of whitespace\<close>

lemma collapse_ws_eq_Nil [simp]: "collapse_ws s = [] \<longleftrightarrow> s = []"
  by (cases s) simp_all

lemma dropWhile_dropWhile_sub:
  "(\<And>x. P x \<Longrightarrow> Q x) \<Longrightarrow> dropWhile Q (dropWhile P xs) = dropWhile Q xs"
  by (induct xs) auto

lemma dropWhile_collapse_ws:
  assumes "\<And>c. isspace c \<Longrightarrow> Q c"
  shows "dropWhile Q (collapse_ws s) = collapse_ws (dropWhile Q s)"
proof (induction s rule: collapse_ws.induct)
  case 1
  show ?case by simp
next
  case (2 c cs)
  show ?case
  proof (cases "isspace c")
    case True
    then have "Q c" and "Q CHR '' ''"
      by (simp_all add: assms)
    with True 2 have "dropWhile Q (collapse_ws (c # cs)) = collapse_ws (dropWhile Q (dropWhile isspace cs))"
      by simp
    also have "dropWhile Q (dropWhile isspace cs) = dropWhile Q cs"
      by (rule dropWhile_dropWhile_sub) (rule assms)
    finally show ?thesis
      using \<open>Q c\<close> by simp
  next
    case False
    with 2 show ?thesis by simp
  qed
qed



lemma collapse_ws_take:
  "n \<le> length (collapse_ws d) \<Longrightarrow> \<forall>c \<in> set (take n (collapse_ws d)). \<not> isspace c \<Longrightarrow>
   n \<le> length d \<and> take n d = take n (collapse_ws d)
   \<and> drop n (collapse_ws d) = collapse_ws (drop n d)"
proof (induction n arbitrary: d)
  case 0
  show ?case by simp
next
  case (Suc n)
  from Suc.prems(1) obtain c cs where d: "d = c # cs"
    by (cases d) simp_all
  show ?case
  proof (cases "isspace c")
    case True
    with d Suc.prems(2) show ?thesis by simp
  next
    case False
    with d Suc.prems have "n \<le> length (collapse_ws cs)"
      and "\<forall>c \<in> set (take n (collapse_ws cs)). \<not> isspace c"
      by simp_all
    then have "n \<le> length cs \<and> take n cs = take n (collapse_ws cs)
       \<and> drop n (collapse_ws cs) = collapse_ws (drop n cs)"
      by (rule Suc.IH)
    with d False show ?thesis by simp
  qed
qed

lemma token_here_collapse_ws:
  assumes t: "\<forall>c \<in> set t. \<not> isspace c"
    and h: "token_here t (collapse_ws d)"
  shows "token_here t d"
proof -
  let ?n = "length t"
  from h have le: "?n \<le> length (collapse_ws d)"
    and lw: "lower (take ?n (collapse_ws d)) = t"
    by (simp_all add: token_here_def)
  have "\<forall>c \<in> set (take ?n (collapse_ws d)). \<not> isspace c"
  proof
    fix c
    assume "c \<in> set (take ?n (collapse_ws d))"
    then have "lower_char c \<in> set (lower (take ?n (collapse_ws d)))"
      by (simp add: lower_def)
    with lw have "lower_char c \<in> set t" by simp
    with t have "\<not> isspace (lower_char c)" by blast
    then show "\<not> isspace c" by simp
  qed
  with le have le': "?n \<le> length d" and tk: "take ?n d = take ?n (collapse_ws d)"
    and dr: "drop ?n (collapse_ws d) = collapse_ws (drop ?n d)"
    using collapse_ws_take [of ?n d] by simp_all
  from h obtain c after where
    dw: "dropWhile isspace (drop ?n (collapse_ws d)) = c # after"
    by (cases "dropWhile isspace (drop ?n (collapse_ws d))") (simp_all add: token_here_def)
  with h have c: "c = CHR '':'' \<or> c = CHR '']''"
    by (simp add: token_here_def)
  from dw have cw: "collapse_ws (dropWhile isspace (drop ?n d)) = c # after"
    by (simp only: dr dropWhile_collapse_ws [of isspace])
  then obtain e rest where e: "dropWhile isspace (drop ?n d) = e # rest"
    by (cases "dropWhile isspace (drop ?n d)") simp_all
  then have "dropWhile isspace (drop ?n d) \<noteq> []" by simp
  then have "\<not> isspace (hd (dropWhile isspace (drop ?n d)))"
    by (rule hd_dropWhile)
  with e have "\<not> isspace e" by simp
  with cw e have "e = c" by simp
  with e c le' lw tk show ?thesis
    by (simp add: token_here_def)
qed

lemma prefix_tokens_no_space: "t \<in> set prefix_tokens \<Longrightarrow> \<forall>c \<in> set t. \<not> isspace c"
  by (auto simp: prefix_tokens_def isspace_def)

lemma prefix_here_collapse_ws: "prefix_here (collapse_ws s) \<Longrightarrow> prefix_here s"
proof -
  assume "prefix_here (collapse_ws s)"
  then obtain t where t: "t \<in> set prefix_tokens"
    and h: "token_here t (collapse_ws (dropWhile isspace s))"
    by (auto simp: prefix_here_iff dropWhile_collapse_ws [of isspace])
  from prefix_tokens_no_space [OF t] h have "token_here t (dropWhile isspace s)"
    by (rule token_here_collapse_ws)
  with t show ?thesis
    by (auto simp: prefix_here_iff)
qed

text \<open>
  A string is single-spaced when its only whitespace characters are spaces and no two of
  them are adjacent: the strings that \<open>collapse_ws\<close> returns and leaves as they are.
\<close>

fun single_spaced :: "string \<Rightarrow> bool" where
  "single_spaced [] = True"
| "single_spaced [c] = (isspace c \<longrightarrow> c = CHR '' '')"
| "single_spaced (c # d # cs) =
     ((isspace c \<longrightarrow> c = CHR '' '' \<and> \<not> isspace d) \<and> single_spaced (d # cs))"

lemma single_spaced_Cons: "\<not> isspace c \<Longrightarrow> single_spaced (c # u) = single_spaced u"
  by (cases u) simp_all

lemma single_spaced_space:
  "single_spaced (CHR '' '' # u) = ((u = [] \<or> \<not> isspace (hd u)) \<and> single_spaced u)"
  by (cases u) simp_all

lemma single_spaced_collapse_ws: "single_spaced (collapse_ws s)"
proof (induction s rule: collapse_ws.induct)
  case 1
  show ?case by simp
next
  case (2 c cs)
  show ?case
  proof (cases "isspace c")
    case True
    let ?d = "dropWhile isspace cs"
    have "collapse_ws ?d = [] \<or> \<not> isspace (hd (collapse_ws ?d))"
    proof (cases ?d)
      case Nil
      then show ?thesis by simp
    next
      case (Cons e r)
      then have "?d \<noteq> []" by simp
      then have "\<not> isspace (hd ?d)" by (rule hd_dropWhile)
      with Cons show ?thesis by simp
    qed
    with True 2 show ?thesis
      by (simp add: single_spaced_space)
  next
    case False
    with 2 show ?thesis
      by (simp add: single_spaced_Cons)
  qed
qed

lemma collapse_ws_single_spaced: "single_spaced s \<Longrightarrow> collapse_ws s = s"
  by (induction s rule: single_spaced.induct) auto

lemma single_spaced_tl: "single_spaced (c # cs) \<Longrightarrow> single_spaced cs"
  by (cases cs) simp_all

lemma single_spaced_dropWhile: "single_spaced s \<Longrightarrow> single_spaced (dropWhile P s)"
  by (induction s) (auto dest: single_spaced_tl)

lemma single_spaced_prefix: "single_spaced (xs @ ys) \<Longrightarrow> single_spaced xs"
proof (induction xs rule: single_spaced.induct)
  case 1
  show ?case by simp
next
  case (2 c)
  then show ?case by (cases ys) simp_all
next
  case (3 c d cs)
  then show ?case by simp
qed

lemma single_spaced_lower: "single_spaced (lower s) = single_spaced s"
  unfolding lower_def by (induction s rule: single_spaced.induct) simp_all

lemma single_spaced_chars: "single_spaced s \<Longrightarrow> c \<in> set s \<Longrightarrow> isspace c \<Longrightarrow> c = CHR '' ''"
  by (induction s rule: single_spaced.induct) auto

lemma single_spaced_rstrip: "single_spaced s \<Longrightarrow> single_spaced (rstrip s)"
proof -
  assume s: "single_spaced s"
  from rstrip_append [of s] obtain v where "s = rstrip s @ v" by blast
  with s have "single_spaced (rstrip s @ v)" by simp
  then show ?thesis by (rule single_spaced_prefix)
qed

lemma single_spaced_strip: "single_spaced s \<Longrightarrow> single_spaced (strip s)"
  unfolding strip_def lstrip_def
  by (rule single_spaced_rstrip) (rule single_spaced_dropWhile)

subsection \<open>What the substitutions leave\<close>

lemma trailing_parens_sub_prefix: "\<exists>w. s = trailing_parens_sub s @ w"
  by (induction s) auto

lemma trailing_dash_sub_prefix:
  "CHR 0x0A \<notin> set s \<Longrightarrow> \<exists>w. s = trailing_dash_sub s @ w"
proof (induction s)
  case Nil
  show ?case by simp
next
  case (Cons c cs)
  show ?case
  proof (cases "dash_match_here (c # cs)")
    case True
    have "dropWhile is_dash (c # cs) \<noteq> [CHR 0x0A]"
    proof
      assume "dropWhile is_dash (c # cs) = [CHR 0x0A]"
      then have "CHR 0x0A \<in> set (dropWhile is_dash (c # cs))" by simp
      then have "CHR 0x0A \<in> set (c # cs)" by (rule set_dropWhileD)
      with Cons.prems show False by simp
    qed
    with True have "dropWhile is_dash (c # cs) = []"
      by (simp only: dash_match_here_def) blast
    with True show ?thesis by simp
  next
    case False
    with Cons show ?thesis by auto
  qed
qed

lemma single_spaced_no_line_feed: "single_spaced s \<Longrightarrow> CHR 0x0A \<notin> set s"
proof
  assume "single_spaced s" and "CHR 0x0A \<in> set s"
  moreover have "isspace (CHR 0x0A)" by (simp add: isspace_def)
  ultimately have "CHR 0x0A = CHR '' ''" by (rule single_spaced_chars)
  then show False by simp
qed

lemma single_spaced_trailing_dash_sub:
  "single_spaced s \<Longrightarrow> single_spaced (trailing_dash_sub s)"
proof -
  assume s: "single_spaced s"
  then have "CHR 0x0A \<notin> set s" by (rule single_spaced_no_line_feed)
  then obtain w where "s = trailing_dash_sub s @ w"
    using trailing_dash_sub_prefix by blast
  with s have "single_spaced (trailing_dash_sub s @ w)" by simp
  then show ?thesis by (rule single_spaced_prefix)
qed

subsection \<open>The loops\<close>

lemma strip_leading_tags_fixed: "bracket_tag_sub (strip_leading_tags s) = strip_leading_tags s"
proof (induction s rule: strip_leading_tags.induct)
  case (1 s)
  show ?case
  proof (cases "bracket_tag_sub s = s")
    case True
    then show ?thesis
      by (simp add: strip_leading_tags.simps [of s])
  next
    case False
    with 1 show ?thesis
      by (simp add: strip_leading_tags.simps [of s])
  qed
qed

lemma strip_prefixes_fixed: "prefix_sub (strip_prefixes s) = strip_prefixes s"
proof (induction s rule: strip_prefixes.induct)
  case (1 s)
  show ?case
  proof (cases "prefix_sub s = s")
    case True
    then show ?thesis
      by (simp add: strip_prefixes.simps [of s])
  next
    case False
    with 1 show ?thesis
      by (simp add: strip_prefixes.simps [of s])
  qed
qed

lemma strip_leading_tags_id: "bracket_tag_sub s = s \<Longrightarrow> strip_leading_tags s = s"
  by (simp add: strip_leading_tags.simps [of s])

lemma strip_prefixes_id: "prefix_sub s = s \<Longrightarrow> strip_prefixes s = s"
  by (simp add: strip_prefixes.simps [of s])

lemma strip_trailing_parens_id: "trailing_parens_sub s = s \<Longrightarrow> strip_trailing_parens s = s"
  by (simp add: strip_trailing_parens.simps [of s])

text \<open>
  A property \<open>H\<close> of the beginning of a string, one that holds of a string when it holds of
  a part of it that starts at the same place or after leading whitespace, comes back from
  the result of a step to its argument.
\<close>

lemma strip_reflects:
  assumes app: "\<And>xs ys. H xs \<Longrightarrow> H (xs @ ys)"
    and ls: "\<And>s. H (dropWhile isspace s) \<Longrightarrow> H s"
    and h: "H (strip s)"
  shows "H s"
proof -
  from rstrip_append [of "lstrip s"] obtain v where "lstrip s = strip s @ v"
    by (auto simp: strip_def)
  with app [OF h, of v] have "H (dropWhile isspace s)"
    by (simp add: lstrip_def)
  then show ?thesis by (rule ls)
qed

lemma strip_trailing_parens_reflects:
  assumes app: "\<And>xs ys. H xs \<Longrightarrow> H (xs @ ys)"
    and ls: "\<And>s. H (dropWhile isspace s) \<Longrightarrow> H s"
  shows "H (strip_trailing_parens s) \<Longrightarrow> H s"
proof (induction s rule: strip_trailing_parens.induct)
  case (1 s)
  show ?case
  proof (cases "trailing_parens_sub s = s")
    case True
    with "1.prems" show ?thesis
      by (simp add: strip_trailing_parens.simps [of s])
  next
    case False
    with "1.prems" have "H (strip_trailing_parens (strip (trailing_parens_sub s)))"
      by (simp add: strip_trailing_parens.simps [of s])
    with False have "H (strip (trailing_parens_sub s))"
      by (simp add: "1.IH")
    with app ls have "H (trailing_parens_sub s)"
      by (rule strip_reflects)
    moreover obtain w where "s = trailing_parens_sub s @ w"
      using trailing_parens_sub_prefix by blast
    ultimately show ?thesis
      using app [of "trailing_parens_sub s" w] by simp
  qed
qed

text \<open>The steps of \<open>normalize_subject\<close> that follow the loop of the prefixes.\<close>

definition finish :: "string \<Rightarrow> string" where
  "finish s = lower (strip (trailing_dash_sub (strip (collapse_ws (strip_trailing_parens s)))))"

lemma normalize_subject_finish:
  "s0 \<noteq> [] \<Longrightarrow>
   normalize_subject (Some s0) = finish (strip_prefixes (strip_leading_tags (strip s0)))"
  by (simp add: normalize_subject_def finish_def Let_def)

lemma finish_reflects:
  assumes app: "\<And>xs ys. H xs \<Longrightarrow> H (xs @ ys)"
    and ls: "\<And>s. H (dropWhile isspace s) \<Longrightarrow> H s"
    and cw: "\<And>s. H (collapse_ws s) \<Longrightarrow> H s"
    and lw: "\<And>s. H (lower s) \<Longrightarrow> H s"
    and h: "H (finish s)"
  shows "H s"
proof -
  let ?v = "strip_trailing_parens s"
  let ?u = "strip (collapse_ws ?v)"
  from h have "H (strip (trailing_dash_sub ?u))"
    unfolding finish_def by (rule lw)
  with app ls have "H (trailing_dash_sub ?u)"
    by (rule strip_reflects)
  moreover have "single_spaced ?u"
    by (rule single_spaced_strip) (rule single_spaced_collapse_ws)
  then have "CHR 0x0A \<notin> set ?u"
    by (rule single_spaced_no_line_feed)
  then obtain w where "?u = trailing_dash_sub ?u @ w"
    using trailing_dash_sub_prefix by blast
  ultimately have "H ?u"
    using app [of "trailing_dash_sub ?u" w] by simp
  with app ls have "H (collapse_ws ?v)"
    by (rule strip_reflects)
  then have "H ?v" by (rule cw)
  with app ls show ?thesis
    by (rule strip_trailing_parens_reflects)
qed

lemma prefix_here_finish: "prefix_here (finish s) \<Longrightarrow> prefix_here s"
proof (rule finish_reflects [where H = prefix_here])
  show "\<And>xs ys. prefix_here xs \<Longrightarrow> prefix_here (xs @ ys)"
    by (rule prefix_here_append)
  show "\<And>s. prefix_here (dropWhile isspace s) \<Longrightarrow> prefix_here s"
    by (simp only: prefix_here_lstrip)
  show "\<And>s. prefix_here (collapse_ws s) \<Longrightarrow> prefix_here s"
    by (rule prefix_here_collapse_ws)
  show "\<And>s. prefix_here (lower s) \<Longrightarrow> prefix_here s"
    by (simp only: prefix_here_lower)
qed


lemma normalize_subject_no_prefix: "prefix_sub (normalize_subject x) = normalize_subject x"
proof (cases "x = None \<or> x = Some []")
  case True
  then have "normalize_subject x = []"
    by (auto simp: normalize_subject_def)
  moreover have "prefix_sub [] = []"
    by code_simp
  ultimately show ?thesis by simp
next
  case False
  then obtain s0 where x: "x = Some s0" and ne: "s0 \<noteq> []"
    by (cases x) auto
  let ?s2 = "strip_prefixes (strip_leading_tags (strip s0))"
  have "\<not> prefix_here ?s2"
    by (simp only: prefix_sub_id [symmetric] strip_prefixes_fixed)
  then have "\<not> prefix_here (finish ?s2)"
    using prefix_here_finish by blast
  with x ne show ?thesis
    by (simp add: normalize_subject_finish prefix_sub_id)
qed


subsection \<open>The shape of a normalised subject\<close>

lemma strip_lower: "strip (lower s) = lower (strip s)"
  by (simp add: strip_def rstrip_def lstrip_def lower_def rev_map dropWhile_map
      isspace_lower_char_comp)

lemma finish_shape:
  "strip (finish s) = finish s \<and> single_spaced (finish s) \<and> lower (finish s) = finish s"
proof -
  let ?u = "trailing_dash_sub (strip (collapse_ws (strip_trailing_parens s)))"
  have "strip (finish s) = finish s"
    by (simp add: finish_def strip_lower strip_strip)
  moreover have "single_spaced (strip ?u)"
    by (intro single_spaced_strip single_spaced_trailing_dash_sub single_spaced_collapse_ws)
  then have "single_spaced (finish s)"
    by (simp add: finish_def single_spaced_lower)
  moreover have "lower (finish s) = finish s"
    by (simp add: finish_def lower_lower)
  ultimately show ?thesis by simp
qed

lemma normalize_subject_shape:
  "strip (normalize_subject x) = normalize_subject x
   \<and> single_spaced (normalize_subject x)
   \<and> lower (normalize_subject x) = normalize_subject x"
proof (cases "x = None \<or> x = Some []")
  case True
  then have "normalize_subject x = []"
    by (auto simp: normalize_subject_def)
  moreover have "strip [] = []"
    by (simp add: strip_def rstrip_def lstrip_def)
  ultimately show ?thesis
    by (simp add: lower_def)
next
  case False
  then obtain s0 where "x = Some s0" and "s0 \<noteq> []"
    by (cases x) auto
  then show ?thesis
    using finish_shape [of "strip_prefixes (strip_leading_tags (strip s0))"]
    by (simp add: normalize_subject_finish)
qed

lemma normalize_subject_settled:
  assumes t: "bracket_tag_sub y = y"
    and p: "prefix_sub y = y"
    and q: "trailing_parens_sub y = y"
    and d: "trailing_dash_sub y = y"
    and st: "strip y = y"
    and ss: "single_spaced y"
    and lw: "lower y = y"
  shows "normalize_subject (Some y) = y"
proof (cases "y = []")
  case True
  then show ?thesis
    by (simp add: normalize_subject_def)
next
  case False
  from t st have "strip_leading_tags (strip y) = y"
    by (simp add: strip_leading_tags_id)
  moreover from p have "strip_prefixes y = y"
    by (rule strip_prefixes_id)
  moreover from q have "strip_trailing_parens y = y"
    by (rule strip_trailing_parens_id)
  moreover from ss have "collapse_ws y = y"
    by (rule collapse_ws_single_spaced)
  ultimately have "finish (strip_prefixes (strip_leading_tags (strip y))) = y"
    using st d lw by (simp add: finish_def)
  with False show ?thesis
    by (simp add: normalize_subject_finish)
qed

subsection \<open>No step makes a string longer\<close>

lemma length_collapse_ws_le: "length (collapse_ws s) \<le> length s"
proof (induction s rule: collapse_ws.induct)
  case 1
  show ?case by simp
next
  case (2 c cs)
  show ?case
  proof (cases "isspace c")
    case True
    with 2 have "length (collapse_ws (dropWhile isspace cs)) \<le> length (dropWhile isspace cs)"
      by simp
    also have "\<dots> \<le> length cs"
      by (rule length_dropWhile_le)
    finally show ?thesis
      using True by simp
  next
    case False
    with 2 show ?thesis by simp
  qed
qed

lemma length_trailing_dash_sub_le: "length (trailing_dash_sub s) \<le> length s"
proof (induction s)
  case Nil
  show ?case by simp
next
  case (Cons c cs)
  have "length (dropWhile is_dash (c # cs)) \<le> length (c # cs)"
    by (rule length_dropWhile_le)
  with Cons show ?case by auto
qed

lemma trailing_dash_sub_shorter:
  "trailing_dash_sub s \<noteq> s \<Longrightarrow> length (trailing_dash_sub s) < length s"
proof (induction s)
  case Nil
  then show ?case by simp
next
  case (Cons c cs)
  show ?case
  proof (cases "dash_match_here (c # cs)")
    case True
    then have "is_dash c"
      by (auto simp: dash_match_here_def split: if_splits)
    then have "length (dropWhile is_dash (c # cs)) \<le> length cs"
      by (simp add: length_dropWhile_le)
    with True show ?thesis by simp
  next
    case False
    with Cons show ?thesis by simp
  qed
qed

lemma length_strip_leading_tags_le: "length (strip_leading_tags s) \<le> length s"
proof (induction s rule: strip_leading_tags.induct)
  case (1 s)
  show ?case
  proof (cases "bracket_tag_sub s = s")
    case True
    then show ?thesis
      by (simp add: strip_leading_tags.simps [of s])
  next
    case False
    with 1 have "length (strip_leading_tags (strip (bracket_tag_sub s)))
        \<le> length (strip (bracket_tag_sub s))"
      by simp
    also have "\<dots> \<le> length (bracket_tag_sub s)"
      by (rule length_strip_le)
    also from False have "\<dots> < length s"
      by (rule bracket_tag_sub_shorter)
    finally show ?thesis
      using False by (simp add: strip_leading_tags.simps [of s])
  qed
qed

lemma strip_leading_tags_shorter:
  assumes "bracket_tag_sub s \<noteq> s"
  shows "length (strip_leading_tags s) < length s"
proof -
  have "length (strip_leading_tags (strip (bracket_tag_sub s)))
      \<le> length (strip (bracket_tag_sub s))"
    by (rule length_strip_leading_tags_le)
  also have "\<dots> \<le> length (bracket_tag_sub s)"
    by (rule length_strip_le)
  also from assms have "\<dots> < length s"
    by (rule bracket_tag_sub_shorter)
  finally show ?thesis
    using assms by (simp add: strip_leading_tags.simps [of s])
qed

lemma length_strip_prefixes_le: "length (strip_prefixes s) \<le> length s"
proof (induction s rule: strip_prefixes.induct)
  case (1 s)
  show ?case
  proof (cases "prefix_sub s = s")
    case True
    then show ?thesis
      by (simp add: strip_prefixes.simps [of s])
  next
    case False
    with 1 have "length (strip_prefixes (strip (prefix_sub s))) \<le> length (strip (prefix_sub s))"
      by simp
    also have "\<dots> \<le> length (prefix_sub s)"
      by (rule length_strip_le)
    also from False have "\<dots> < length s"
      by (rule prefix_sub_shorter)
    finally show ?thesis
      using False by (simp add: strip_prefixes.simps [of s])
  qed
qed

lemma length_strip_trailing_parens_le: "length (strip_trailing_parens s) \<le> length s"
proof (induction s rule: strip_trailing_parens.induct)
  case (1 s)
  show ?case
  proof (cases "trailing_parens_sub s = s")
    case True
    then show ?thesis
      by (simp add: strip_trailing_parens.simps [of s])
  next
    case False
    with 1 have "length (strip_trailing_parens (strip (trailing_parens_sub s)))
        \<le> length (strip (trailing_parens_sub s))"
      by simp
    also have "\<dots> \<le> length (trailing_parens_sub s)"
      by (rule length_strip_le)
    also from False have "\<dots> < length s"
      by (rule trailing_parens_sub_shorter)
    finally show ?thesis
      using False by (simp add: strip_trailing_parens.simps [of s])
  qed
qed

lemma strip_trailing_parens_shorter:
  assumes "trailing_parens_sub s \<noteq> s"
  shows "length (strip_trailing_parens s) < length s"
proof -
  have "length (strip_trailing_parens (strip (trailing_parens_sub s)))
      \<le> length (strip (trailing_parens_sub s))"
    by (rule length_strip_trailing_parens_le)
  also have "\<dots> \<le> length (trailing_parens_sub s)"
    by (rule length_strip_le)
  also from assms have "\<dots> < length s"
    by (rule trailing_parens_sub_shorter)
  finally show ?thesis
    using assms by (simp add: strip_trailing_parens.simps [of s])
qed

text \<open>The steps after the loop of the qualifiers.\<close>

lemma length_finish_le: "length (finish s) \<le> length (strip_trailing_parens s)"
proof -
  let ?c = "strip_trailing_parens s"
  have "length (finish s) = length (strip (trailing_dash_sub (strip (collapse_ws ?c))))"
    by (simp add: finish_def lower_def)
  also have "\<dots> \<le> length (trailing_dash_sub (strip (collapse_ws ?c)))"
    by (rule length_strip_le)
  also have "\<dots> \<le> length (strip (collapse_ws ?c))"
    by (rule length_trailing_dash_sub_le)
  also have "\<dots> \<le> length (collapse_ws ?c)"
    by (rule length_strip_le)
  also have "\<dots> \<le> length ?c"
    by (rule length_collapse_ws_le)
  finally show ?thesis .
qed

lemma normalize_subject_shorter:
  assumes st: "strip y = y"
    and ss: "single_spaced y"
    and ch: "bracket_tag_sub y \<noteq> y \<or> trailing_parens_sub y \<noteq> y \<or> trailing_dash_sub y \<noteq> y"
  shows "length (normalize_subject (Some y)) < length y"
proof -
  have e: "bracket_tag_sub [] = []"
    by code_simp
  with ch have ne: "y \<noteq> []" by auto
  let ?a = "strip_leading_tags y"
  let ?b = "strip_prefixes ?a"
  from ne st have n: "normalize_subject (Some y) = finish ?b"
    by (simp add: normalize_subject_finish)
  have le: "length (finish ?b) \<le> length (strip_trailing_parens ?b)"
    by (rule length_finish_le)
  have b: "length (strip_trailing_parens ?b) \<le> length ?b"
    by (rule length_strip_trailing_parens_le)
  have a: "length ?b \<le> length ?a"
    by (rule length_strip_prefixes_le)
  show ?thesis
  proof (cases "bracket_tag_sub y = y")
    case False
    then have "length ?a < length y"
      by (rule strip_leading_tags_shorter)
    with le b a n show ?thesis by simp
  next
    case t: True
    then have a': "?a = y"
      by (rule strip_leading_tags_id)
    show ?thesis
    proof (cases "prefix_sub y = y")
      case False
      then have "length (prefix_sub y) < length y"
        by (rule prefix_sub_shorter)
      moreover have "length (strip_prefixes (strip (prefix_sub y))) \<le> length (strip (prefix_sub y))"
        by (rule length_strip_prefixes_le)
      moreover have "length (strip (prefix_sub y)) \<le> length (prefix_sub y)"
        by (rule length_strip_le)
      ultimately have "length (strip_prefixes y) < length y"
        using False by (simp add: strip_prefixes.simps [of y])
      with le b a' n show ?thesis by simp
    next
      case p: True
      then have b': "?b = y"
        by (simp add: a' strip_prefixes_id)
      show ?thesis
      proof (cases "trailing_parens_sub y = y")
        case False
        then have "length (strip_trailing_parens y) < length y"
          by (rule strip_trailing_parens_shorter)
        with le b' n show ?thesis by simp
      next
        case q: True
        with ch t have d: "trailing_dash_sub y \<noteq> y" by simp
        from q have "strip_trailing_parens y = y"
          by (rule strip_trailing_parens_id)
        moreover from ss have "collapse_ws y = y"
          by (rule collapse_ws_single_spaced)
        ultimately have "finish y = lower (strip (trailing_dash_sub y))"
          using st by (simp add: finish_def)
        then have "length (finish y) = length (strip (trailing_dash_sub y))"
          by (simp add: lower_def)
        also have "\<dots> \<le> length (trailing_dash_sub y)"
          by (rule length_strip_le)
        also from d have "\<dots> < length y"
          by (rule trailing_dash_sub_shorter)
        finally show ?thesis
          using b' n by simp
      qed
    qed
  qed
qed

section \<open>What a normalised subject begins with\<close>




section \<open>Normalising twice\<close>

text \<open>
  Claim C2, as amended. Normalising a normalised subject returns it unchanged exactly
  when it begins with no bracketed tag and ends with neither a bracketed qualifier nor
  one of the characters \<open>-\<close>, \<open>:\<close> and \<open>|\<close>, that is, when the three substitutions that
  can still apply to it leave it as it is.
\<close>

theorem normalize_subject_idempotent:
  "normalize_subject (Some (normalize_subject x)) = normalize_subject x \<longleftrightarrow>
     bracket_tag_sub (normalize_subject x) = normalize_subject x
     \<and> trailing_parens_sub (normalize_subject x) = normalize_subject x
     \<and> trailing_dash_sub (normalize_subject x) = normalize_subject x"
proof
  assume "bracket_tag_sub (normalize_subject x) = normalize_subject x
     \<and> trailing_parens_sub (normalize_subject x) = normalize_subject x
     \<and> trailing_dash_sub (normalize_subject x) = normalize_subject x"
  with normalize_subject_no_prefix [of x] normalize_subject_shape [of x]
  show "normalize_subject (Some (normalize_subject x)) = normalize_subject x"
    by (intro normalize_subject_settled) simp_all
next
  assume i: "normalize_subject (Some (normalize_subject x)) = normalize_subject x"
  show "bracket_tag_sub (normalize_subject x) = normalize_subject x
     \<and> trailing_parens_sub (normalize_subject x) = normalize_subject x
     \<and> trailing_dash_sub (normalize_subject x) = normalize_subject x"
  proof (rule ccontr)
    assume "\<not> (bracket_tag_sub (normalize_subject x) = normalize_subject x
     \<and> trailing_parens_sub (normalize_subject x) = normalize_subject x
     \<and> trailing_dash_sub (normalize_subject x) = normalize_subject x)"
    with normalize_subject_shape [of x]
    have "length (normalize_subject (Some (normalize_subject x))) < length (normalize_subject x)"
      by (intro normalize_subject_shorter) simp_all
    with i show False by simp
  qed
qed

text \<open>
  A reply with a run of spaces and a trailing qualifier: its normal form is settled, and
  normalising it again returns it.
\<close>

theorem normalize_subject_idempotent_witness:
  "normalize_subject (Some ''RE: Hello   World (Draft)'') = ''hello world''
   \<and> normalize_subject (Some ''hello world'') = ''hello world''"
proof -
  have n: "normalize_subject (Some ''RE: Hello   World (Draft)'') = ''hello world''"
    by code_simp
  have "bracket_tag_sub ''hello world'' = ''hello world''"
    and "trailing_parens_sub ''hello world'' = ''hello world''"
    and "trailing_dash_sub ''hello world'' = ''hello world''"
    by code_simp+
  with normalize_subject_idempotent [of "Some ''RE: Hello   World (Draft)''"] n
  show ?thesis by simp
qed

text \<open>
  Three subjects that change when they are normalised a second time: a tag behind a
  prefix, a qualifier in front of a dash, and two dashes with a space between them.
\<close>

theorem normalize_subject_idempotent_counterexample:
  "normalize_subject (Some (normalize_subject (Some ''FW: [Bid] Hall'')))
     \<noteq> normalize_subject (Some ''FW: [Bid] Hall'')
   \<and> normalize_subject (Some ''FW: [Bid] Hall'') = ''[bid] hall''
   \<and> normalize_subject (Some ''[bid] hall'') = ''hall''
   \<and> normalize_subject (Some ''Hall (a) -'') = ''hall (a)''
   \<and> normalize_subject (Some ''hall (a)'') = ''hall''
   \<and> normalize_subject (Some ''Hall - :'') = ''hall -''
   \<and> normalize_subject (Some ''hall -'') = ''hall''"
  by code_simp

end
